theory Spec2Isabelle
  imports Complex_Main "HOL-Library.Sublist" "HOL-Library.Word"
begin

section \<open>Common conventions\<close>

text \<open>
  The Python sources work on IEEE doubles.  Finite doubles are embedded as \<^typ>\<open>real\<close>
  with exact arithmetic; every comparison, \<open>max\<close>, \<open>min\<close> and subtraction of the source
  is the corresponding operation on reals.  Where the source produces or filters
  not-a-number values they are written out explicitly (\<open>None\<close> for a NaN output cell,
  a constructor of their own for a non-finite input cell).  Strings are
  \<^typ>\<open>string\<close>; exceptions are values of the type \<open>error\<close> carrying the message.
\<close>

datatype error = ValueError string | RuntimeError string | OverflowError string

section \<open>IPU derivation from token intervals (\<open>hyper/annotations/palign_core.py\<close>)\<close>

subsection \<open>Constants and types\<close>

definition DEFAULT_MIN_IPU_S :: real where
  "DEFAULT_MIN_IPU_S = 1 / 100"

definition DEFAULT_MIN_SILENCE_S :: real where
  "DEFAULT_MIN_SILENCE_S = 2 / 10"

definition SILENCE_LABEL :: string where
  "SILENCE_LABEL = ''#''"

definition IPU_LABEL :: string where
  "IPU_LABEL = ''IPU''"

text \<open>The dataclass \<open>Interval(start, end, text)\<close>.\<close>

record Interval =
  itv_start :: real
  itv_end :: real
  itv_text :: string

definition duration :: "Interval \<Rightarrow> real" where
  "duration itv = itv_end itv - itv_start itv"

type_synonym segment = "real \<times> real"

subsection \<open>Token membership\<close>

text \<open>
  \<open>str.strip()\<close> removes leading and trailing white space; among the ASCII characters
  these are the codes 9 to 13, 28 to 31 and 32.  \<open>str.lower()\<close> maps the ASCII letters
  \<open>A\<close> to \<open>Z\<close> onto \<open>a\<close> to \<open>z\<close>.  Labels are taken to be ASCII.
\<close>

definition is_space :: "char \<Rightarrow> bool" where
  "is_space c = (let n = (of_char c :: nat) in (9 \<le> n \<and> n \<le> 13) \<or> (28 \<le> n \<and> n \<le> 32))"

definition strip :: "string \<Rightarrow> string" where
  "strip s = rev (dropWhile is_space (rev (dropWhile is_space s)))"

definition lower_char :: "char \<Rightarrow> char" where
  "lower_char c = (let n = (of_char c :: nat) in if 65 \<le> n \<and> n \<le> 90 then char_of (n + 32) else c)"

definition lower :: "string \<Rightarrow> string" where
  "lower s = map lower_char s"

record flags =
  include_laughter :: bool
  include_noise :: bool
  include_filled_pause :: bool

definition is_token_in_ipu :: "string \<Rightarrow> flags \<Rightarrow> bool" where
  "is_token_in_ipu token fl =
     (let t = strip token in
      if t = [] then False
      else if t = SILENCE_LABEL then False
      else if t = ''@'' then include_laughter fl
      else if t = ''*'' then include_noise fl
      else if lower t = ''fp'' then include_filled_pause fl
      else True)"

subsection \<open>Building IPU segments\<close>

text \<open>
  First pass of \<open>build_ipu_segments_from_tokens\<close>.  The loop state is the list
  \<open>raw_segments\<close> and the open run; \<open>current_start\<close> and \<open>current_end\<close> are set and
  cleared together, so the open run is one optional pair.
\<close>

fun scan_tokens :: "flags \<Rightarrow> Interval list \<Rightarrow> segment list \<Rightarrow> segment option
    \<Rightarrow> segment list \<times> segment option" where
  "scan_tokens fl [] raw_segments current = (raw_segments, current)"
| "scan_tokens fl (itv # tokens) raw_segments current =
     (if is_token_in_ipu (itv_text itv) fl then
        (case current of
           None \<Rightarrow> scan_tokens fl tokens raw_segments (Some (itv_start itv, itv_end itv))
         | Some (current_start, current_end) \<Rightarrow>
             scan_tokens fl tokens raw_segments (Some (current_start, max current_end (itv_end itv))))
      else
        (case current of
           None \<Rightarrow> scan_tokens fl tokens raw_segments None
         | Some (current_start, current_end) \<Rightarrow>
             scan_tokens fl tokens (raw_segments @ [(current_start, current_end)]) None))"

definition raw_runs :: "flags \<Rightarrow> Interval list \<Rightarrow> segment list" where
  "raw_runs fl tokens =
     (case scan_tokens fl tokens [] None of
        (raw_segments, None) \<Rightarrow> raw_segments
      | (raw_segments, Some (current_start, current_end)) \<Rightarrow>
          raw_segments @ [(current_start, current_end)])"

text \<open>
  Second pass: the loop over \<open>raw_segments[1:]\<close> with the list \<open>merged\<close> as state;
  \<open>merged\<close> is never empty inside the loop, \<open>merged[-1]\<close> is its last element.
\<close>

fun merge_loop :: "real \<Rightarrow> segment list \<Rightarrow> segment list \<Rightarrow> segment list" where
  "merge_loop min_silence_s merged [] = merged"
| "merge_loop min_silence_s merged ((start, end') # rest) =
     (case last merged of (prev_start, prev_end) \<Rightarrow>
        if start - prev_end < min_silence_s
        then merge_loop min_silence_s (butlast merged @ [(prev_start, max prev_end end')]) rest
        else merge_loop min_silence_s (merged @ [(start, end')]) rest)"

definition merge_pass :: "real \<Rightarrow> segment list \<Rightarrow> segment list" where
  "merge_pass min_silence_s raw_segments =
     (case raw_segments of
        [] \<Rightarrow> []
      | first # rest \<Rightarrow> merge_loop min_silence_s [first] rest)"

definition build_ipu_segments_from_tokens :: "Interval list \<Rightarrow> flags \<Rightarrow> real \<Rightarrow> error + segment list" where
  "build_ipu_segments_from_tokens tokens fl min_silence_s =
     (if min_silence_s < 0 then Inl (ValueError ''min_silence_s must be >= 0'')
      else Inr (merge_pass min_silence_s (raw_runs fl tokens)))"

subsection \<open>Rendering the full tier\<close>

text \<open>The first loop of \<open>apply_min_ipu_and_render_full_tier\<close>, which fills \<open>kept\<close>.\<close>

fun keep_segments :: "real \<Rightarrow> real \<Rightarrow> real \<Rightarrow> segment list \<Rightarrow> segment list" where
  "keep_segments t_start t_end min_ipu_s [] = []"
| "keep_segments t_start t_end min_ipu_s ((s, e) # ipu_segments) =
     (if e \<le> s then keep_segments t_start t_end min_ipu_s ipu_segments
      else if e - s \<ge> min_ipu_s
      then (max t_start s, min t_end e) # keep_segments t_start t_end min_ipu_s ipu_segments
      else keep_segments t_start t_end min_ipu_s ipu_segments)"

text \<open>The rendering loop: state \<open>out\<close> and \<open>cursor\<close>.\<close>

fun render_loop :: "string \<Rightarrow> string \<Rightarrow> segment list \<Rightarrow> Interval list \<Rightarrow> real
    \<Rightarrow> Interval list \<times> real" where
  "render_loop ipu_label silence_label [] out cursor = (out, cursor)"
| "render_loop ipu_label silence_label ((s, e) # kept) out cursor =
     render_loop ipu_label silence_label kept
       ((if s > cursor
         then out @ [\<lparr>itv_start = cursor, itv_end = s, itv_text = silence_label\<rparr>]
         else out)
        @ [\<lparr>itv_start = s, itv_end = e, itv_text = ipu_label\<rparr>])
       e"

definition apply_min_ipu_and_render_full_tier ::
    "real \<Rightarrow> real \<Rightarrow> segment list \<Rightarrow> real \<Rightarrow> string \<Rightarrow> string \<Rightarrow> error + Interval list" where
  "apply_min_ipu_and_render_full_tier t_start t_end ipu_segments min_ipu_s ipu_label silence_label =
     (if t_end < t_start then Inl (ValueError ''t_end must be >= t_start'')
      else if min_ipu_s < 0 then Inl (ValueError ''min_ipu_s must be >= 0'')
      else
        (let kept = keep_segments t_start t_end min_ipu_s ipu_segments;
             kept = filter (\<lambda>(s, e). e > s) kept
         in case render_loop ipu_label silence_label kept [] t_start of
              (out, cursor) \<Rightarrow>
                (let out = (if cursor < t_end
                            then out @ [\<lparr>itv_start = cursor, itv_end = t_end, itv_text = silence_label\<rparr>]
                            else out)
                 in Inr (filter (\<lambda>itv. itv_end itv > itv_start itv) out))))"

text \<open>
  The second pass without the accumulator list: \<open>merge_from ms p rest\<close> is what the loop
  yields from the point where \<open>p\<close> is the last element of \<open>merged\<close> and \<open>rest\<close> is still
  to be read (shown equal to \<open>merge_loop\<close> below).
\<close>

fun merge_from :: "real \<Rightarrow> segment \<Rightarrow> segment list \<Rightarrow> segment list" where
  "merge_from ms p [] = [p]"
| "merge_from ms p ((s, e) # rest) =
     (if s - snd p < ms then merge_from ms (fst p, max (snd p) e) rest
      else p # merge_from ms (s, e) rest)"

text \<open>Every two consecutive segments are at least \<open>ms\<close> apart.\<close>

fun gaps_ok :: "real \<Rightarrow> segment list \<Rightarrow> bool" where
  "gaps_ok ms [] = True"
| "gaps_ok ms [x] = True"
| "gaps_ok ms (x # y # xs) = (ms \<le> fst y - snd x \<and> gaps_ok ms (y # xs))"

text \<open>
  Orderings of a segment list: \<open>time_ordered\<close> is the order by \<open>(start, end)\<close>;
  \<open>non_overlapping\<close> says that every segment ends before any later one starts.
\<close>

definition time_ordered :: "segment list \<Rightarrow> bool" where
  "time_ordered segs = sorted_wrt (\<lambda>a b. fst a < fst b \<or> (fst a = fst b \<and> snd a \<le> snd b)) segs"

definition non_overlapping :: "segment list \<Rightarrow> bool" where
  "non_overlapping segs = sorted_wrt (\<lambda>a b. snd a \<le> fst b) segs"

text \<open>
  \<open>tier_path a tier b\<close>: the intervals of \<open>tier\<close> have positive duration, the first starts
  at \<open>a\<close>, each one starts where the one before ends, and the last ends at \<open>b\<close>.
\<close>

fun tier_path :: "real \<Rightarrow> Interval list \<Rightarrow> real \<Rightarrow> bool" where
  "tier_path a [] b = (a = b)"
| "tier_path a (itv # tier) b =
     (itv_start itv = a \<and> itv_start itv < itv_end itv \<and> tier_path (itv_end itv) tier b)"

text \<open>The rendering loop without the accumulator: the intervals emitted from \<open>cursor\<close> on.\<close>

fun render_from :: "string \<Rightarrow> string \<Rightarrow> real \<Rightarrow> segment list \<Rightarrow> Interval list" where
  "render_from ipu_label silence_label cursor [] = []"
| "render_from ipu_label silence_label cursor ((s, e) # kept) =
     (if s > cursor then [\<lparr>itv_start = cursor, itv_end = s, itv_text = silence_label\<rparr>] else [])
     @ \<lparr>itv_start = s, itv_end = e, itv_text = ipu_label\<rparr>
     # render_from ipu_label silence_label e kept"

section \<open>Conversational metadata (\<open>hyper/preprocessing/metadata.py\<close>)\<close>

subsection \<open>Constants and tables\<close>

definition COLUMN_LIST :: "string list" where
  "COLUMN_LIST = [''duration'', ''n_syllables'', ''rate'']"

definition PLACEHOLDER_ANNOTATION :: string where
  "PLACEHOLDER_ANNOTATION = ''#''"

text \<open>
  An IPU table is a data frame: its header \<open>columns\<close> and its rows in order.  A row holds
  the cells of the six columns the module reads; the numeric cells are finite numbers.
  The index labels of a frame are unique (the default range index of \<open>read_csv\<close>), so a row
  is identified by its position.
\<close>

record ipu_row =
  row_start :: real
  row_end :: real
  annotation :: string
  row_duration :: real
  n_syllables :: real
  rate :: real

record ipu_table =
  columns :: "string list"
  rows :: "ipu_row list"


subsection \<open>Printing of strings and lists in messages\<close>

text \<open>
  \<open>repr\<close> of a string of printable characters without a double quote: single quotes
  around it, backslash and single quote escaped.  \<open>str\<close> of a list joins the \<open>repr\<close>s.
\<close>

definition py_repr :: "string \<Rightarrow> string" where
  "py_repr s = [CHR 0x27]
     @ concat (map (\<lambda>c. if c = CHR 0x5C \<or> c = CHR 0x27 then [CHR 0x5C, c] else [c]) s)
     @ [CHR 0x27]"

fun join :: "string \<Rightarrow> string list \<Rightarrow> string" where
  "join sep [] = []"
| "join sep [x] = x"
| "join sep (x # y # ys) = x @ sep @ join sep (y # ys)"

definition py_str_list :: "string list \<Rightarrow> string" where
  "py_str_list xs = ''['' @ join '', '' (map py_repr xs) @ '']''"

subsection \<open>Cleaning\<close>

text \<open>
  \<open>sorted(required_cols.difference(ipu.columns))\<close>: the required names that are not in the
  header, in the order of their sorted list.
\<close>

definition required_cols_sorted :: "string list" where
  "required_cols_sorted = [''annotation'', ''duration'', ''end'', ''n_syllables'', ''rate'', ''start'']"

definition missing_cols :: "string list \<Rightarrow> string list" where
  "missing_cols cols = filter (\<lambda>c. c \<notin> set cols) required_cols_sorted"

definition clean_and_prefix_ipu :: "ipu_table \<Rightarrow> string \<Rightarrow> error + ipu_table" where
  "clean_and_prefix_ipu ipu speaker =
     (let missing = missing_cols (columns ipu) in
      if missing \<noteq> []
      then Inl (ValueError (speaker @ '' IPU table missing required columns: '' @ py_str_list missing))
      else Inr \<lparr>columns = map (\<lambda>col. if col \<in> set COLUMN_LIST then speaker @ ''_'' @ col else col)
                             (columns ipu),
                rows = filter (\<lambda>row. annotation row \<noteq> PLACEHOLDER_ANNOTATION) (rows ipu)\<rparr>)"

subsection \<open>Alignment\<close>












subsection \<open>Partner inference\<close>

definition is_digit :: "char \<Rightarrow> bool" where
  "is_digit c = (48 \<le> (of_char c :: nat) \<and> (of_char c :: nat) \<le> 57)"

definition digit_char :: "nat \<Rightarrow> char" where
  "digit_char d = char_of (48 + d)"

text \<open>
  \<open>int\<close> of a string: an optional sign followed by at least one decimal digit, anything
  else raising \<open>ValueError\<close> (the white space and underscores that \<open>int\<close> also accepts
  cannot occur in a group matched by \<open>\d\<close>).  \<open>int_of_digits\<close> is the value of a string of
  digits.  Then \<open>str\<close> of an integer and \<open>str.zfill\<close>.
\<close>

definition int_of_digits :: "string \<Rightarrow> int" where
  "int_of_digits s = foldl (\<lambda>a c. 10 * a + int (of_char c - 48)) 0 s"

definition py_int :: "string \<Rightarrow> error + int" where
  "py_int s =
     (let negative = (case s of [] \<Rightarrow> False | c # _ \<Rightarrow> c = CHR ''-'');
          digits = (case s of [] \<Rightarrow> [] | c # cs \<Rightarrow> if c = CHR ''-'' \<or> c = CHR ''+'' then cs else s)
      in if digits = [] \<or> \<not> list_all is_digit digits
         then Inl (ValueError (''invalid literal for int() with base 10: '' @ py_repr s))
         else Inr (if negative then - int_of_digits digits else int_of_digits digits))"

fun str_nat :: "nat \<Rightarrow> string" where
  "str_nat n = (if n < 10 then [digit_char n] else str_nat (n div 10) @ [digit_char (n mod 10)])"

declare str_nat.simps [simp del]

definition str_int :: "int \<Rightarrow> string" where
  "str_int i = (if i < 0 then CHR ''-'' # str_nat (nat (- i)) else str_nat (nat i))"

definition zfill :: "nat \<Rightarrow> string \<Rightarrow> string" where
  "zfill width s =
     (case s of
        [] \<Rightarrow> replicate width CHR ''0''
      | c # cs \<Rightarrow>
          if c = CHR ''+'' \<or> c = CHR ''-''
          then c # replicate (width - length s) CHR ''0'' @ cs
          else replicate (width - length s) CHR ''0'' @ s)"

text \<open>
  \<open>re.search\<close> with the default pattern \<open>sub-(\d{3}).*run-(\d+)\<close> over one-byte
  characters.  \<open>run_here\<close> matches \<open>run-(\d+)\<close> at the head of a string, taking all the
  digits that follow; \<open>run_after\<close> is the greedy \<open>.*\<close> before it, which tries the longest
  skip first and never skips a newline; \<open>match_at\<close> matches the whole pattern at the head
  of a string and \<open>re_search\<close> tries the start positions from the left.
\<close>

definition run_here :: "string \<Rightarrow> string option" where
  "run_here s =
     (if prefix ''run-'' s \<and> (case drop 4 s of [] \<Rightarrow> False | c # _ \<Rightarrow> is_digit c)
      then Some (takeWhile is_digit (drop 4 s)) else None)"

fun run_after :: "string \<Rightarrow> string option" where
  "run_after [] = run_here []"
| "run_after (c # cs) =
     (if c = CHR 0x0A then run_here (c # cs)
      else (case run_after cs of Some g \<Rightarrow> Some g | None \<Rightarrow> run_here (c # cs)))"

definition match_at :: "string \<Rightarrow> (string \<times> string) option" where
  "match_at s =
     (if prefix ''sub-'' s \<and> 3 \<le> length (drop 4 s) \<and> list_all is_digit (take 3 (drop 4 s))
      then (case run_after (drop 7 s) of
              None \<Rightarrow> None
            | Some g \<Rightarrow> Some (take 3 (drop 4 s), g))
      else None)"

fun re_search :: "string \<Rightarrow> (string \<times> string) option" where
  "re_search [] = match_at []"
| "re_search (c # cs) = (case match_at (c # cs) of Some m \<Rightarrow> Some m | None \<Rightarrow> re_search cs)"

text \<open>
  \<open>infer_partner_id_and_run_from_ipu_path\<close> with the default pattern; the argument is the
  stem of the path.
\<close>

definition DEFAULT_IPU_FILENAME_PATTERN :: string where
  "DEFAULT_IPU_FILENAME_PATTERN = ''sub-('' @ [CHR 0x5C] @ ''d{3}).*run-('' @ [CHR 0x5C] @ ''d+)''"

definition infer_partner_id_and_run_from_ipu_path :: "string \<Rightarrow> error + (string \<times> string)" where
  "infer_partner_id_and_run_from_ipu_path stem =
     (case re_search stem of
        None \<Rightarrow> Inl (RuntimeError (''IPU filename must match pattern ''
                  @ py_repr DEFAULT_IPU_FILENAME_PATTERN @ '', got stem='' @ py_repr stem))
      | Some (group1, group2) \<Rightarrow>
          (case py_int group1 of
             Inl e \<Rightarrow> Inl e
           | Inr self_id_int \<Rightarrow>
               (let run = group2;
                    other_id_int = (if self_id_int mod 2 = 0 then self_id_int - 1 else self_id_int + 1);
                    other_id = zfill 3 (str_int other_id_int)
                in Inr (other_id, run))))"

subsection \<open>Events\<close>

text \<open>
  \<open>numpy.rint\<close>: the nearest integer, a tie going to the even neighbour.
\<close>

definition rint :: "real \<Rightarrow> int" where
  "rint x =
     (let f = \<lfloor>x\<rfloor>; d = x - of_int f in
      if d < 1 / 2 then f
      else if 1 / 2 < d then f + 1
      else if even f then f else f + 1)"

text \<open>
  A cell of the timestamp column after \<open>pd.to_numeric(..., errors="coerce")\<close>: a finite
  number, or a value that \<open>np.isfinite\<close> rejects (NaN from a missing or unreadable cell,
  or an infinity).
\<close>

datatype ts_cell = Finite real | NonFinite

text \<open>The metadata frame: its columns in order, each a name with its cells.\<close>

type_synonym metadata_df = "(string \<times> ts_cell list) list"

definition md_columns :: "metadata_df \<Rightarrow> string list" where
  "md_columns metadata = map fst metadata"

definition md_column :: "metadata_df \<Rightarrow> string \<Rightarrow> ts_cell list" where
  "md_column metadata col = (case map_of metadata col of None \<Rightarrow> [] | Some cells \<Rightarrow> cells)"

fun finite_values :: "ts_cell list \<Rightarrow> real list" where
  "finite_values [] = []"
| "finite_values (Finite t # cs) = t # finite_values cs"
| "finite_values (NonFinite # cs) = finite_values cs"

text \<open>
  The product \<open>timestamps_s * float(sfreq_hz)\<close> is a double multiplication: its result is
  the exact product rounded to a double, or an infinity on overflow.  It is the
  parameter \<open>fmul\<close> of the model, so that what is proved holds for the product the
  hardware computes; \<open>exact_mul\<close> is that multiplication on arguments whose exact product
  is a double.
\<close>

definition exact_mul :: "real \<Rightarrow> real \<Rightarrow> ts_cell" where
  "exact_mul a b = Finite (a * b)"

text \<open>
  \<open>.astype(int)\<close> casts the doubles returned by \<open>np.rint\<close> to 64-bit integers: a value
  inside the range is kept, any other value (an infinity too) becomes \<open>-2^63\<close>, the
  result of the conversion instruction of x86-64.
\<close>

definition fits_int64 :: "int \<Rightarrow> bool" where
  "fits_int64 n = (- (2 ^ 63) \<le> n \<and> n < 2 ^ 63)"

definition astype_int64 :: "ts_cell \<Rightarrow> 64 word" where
  "astype_int64 x =
     (case x of
        Finite p \<Rightarrow> if fits_int64 (rint p) then word_of_int (rint p) else word_of_int (- (2 ^ 63))
      | NonFinite \<Rightarrow> word_of_int (- (2 ^ 63)))"

text \<open>
  \<open>metadata_df_to_mne_events\<close>.  The samples are an \<open>int64\<close> array: adding
  \<open>int(first_samp)\<close> wraps around, and a Python integer outside the 64-bit range, added to
  the array or stored into \<open>events\<close>, raises \<open>OverflowError\<close> (NumPy 2).  The entries of
  the returned array are given by their signed values.
\<close>

definition metadata_df_to_mne_events ::
    "(real \<Rightarrow> real \<Rightarrow> ts_cell) \<Rightarrow> metadata_df \<Rightarrow> real \<Rightarrow> int \<Rightarrow> string \<Rightarrow> int
      \<Rightarrow> error + (int \<times> int \<times> int) list" where
  "metadata_df_to_mne_events fmul metadata sfreq_hz first_samp timestamp_col event_id =
     (if timestamp_col \<notin> set (md_columns metadata)
      then Inl (ValueError (''metadata_df must contain column '' @ py_repr timestamp_col
                  @ ''. Found: '' @ py_str_list (md_columns metadata)))
      else
        (let timestamps_s = finite_values (md_column metadata timestamp_col);
             rounded = map (\<lambda>t. astype_int64 (fmul t sfreq_hz)) timestamps_s
         in if \<not> fits_int64 first_samp
            then Inl (OverflowError (''Python integer '' @ str_int first_samp
                        @ '' out of bounds for int64''))
            else
              (let samples = map (\<lambda>r. r + word_of_int first_samp) rounded
               in if \<not> fits_int64 event_id
                  then Inl (OverflowError ''Python int too large to convert to C long'')
                  else Inr (map (\<lambda>sample. (sint sample, 0, event_id)) samples))))"

section \<open>Properties of the IPU derivation\<close>

lemma merge_loop_merge_from:
  "merged \<noteq> [] \<Longrightarrow> merge_loop ms merged rest = butlast merged @ merge_from ms (last merged) rest"
proof (induction rest arbitrary: merged)
  case Nil
  then show ?case by simp
next
  case (Cons x rest)
  obtain s e where x: "x = (s, e)" by (cases x)
  obtain ps pe where l: "last merged = (ps, pe)" by (cases "last merged")
  show ?case
  proof (cases "s - pe < ms")
    case True
    have "merge_loop ms merged (x # rest) = merge_loop ms (butlast merged @ [(ps, max pe e)]) rest"
      using True x l by simp
    also have "\<dots> = butlast merged @ merge_from ms (ps, max pe e) rest"
      using Cons.IH [of "butlast merged @ [(ps, max pe e)]"] by simp
    finally show ?thesis using True x l by simp
  next
    case False
    have "merge_loop ms merged (x # rest) = merge_loop ms (merged @ [(s, e)]) rest"
      using False x l by simp
    also have "\<dots> = merged @ merge_from ms (s, e) rest"
      using Cons.IH [of "merged @ [(s, e)]"] by simp
    also have "\<dots> = butlast merged @ (ps, pe) # merge_from ms (s, e) rest"
      using Cons.prems l by (metis append_butlast_last_id append.assoc append_Cons append_Nil)
    finally show ?thesis using False x l by simp
  qed
qed

lemma merge_pass_Nil: "merge_pass ms [] = []"
  by (simp add: merge_pass_def)

lemma merge_pass_Cons: "merge_pass ms (p # rest) = merge_from ms p rest"
  by (simp add: merge_pass_def merge_loop_merge_from)

lemma merge_from_hd: "\<exists>e' qs. merge_from ms p rest = (fst p, e') # qs"
  by (induction ms p rest rule: merge_from.induct) auto

lemma gaps_ok_merge_from: "gaps_ok ms (merge_from ms p rest)"
proof (induction ms p rest rule: merge_from.induct)
  case (1 ms p)
  then show ?case by simp
next
  case (2 ms p s e rest)
  show ?case
  proof (cases "s - snd p < ms")
    case True
    then show ?thesis using 2 by simp
  next
    case False
    obtain e' qs where q: "merge_from ms (s, e) rest = (s, e') # qs"
      using merge_from_hd [of ms "(s, e)" rest] by auto
    then show ?thesis using False 2 by simp
  qed
qed



lemma gaps_ok_merge_pass: "gaps_ok ms (merge_pass ms xs)"
  by (cases xs) (simp_all add: merge_pass_Cons gaps_ok_merge_from merge_pass_Nil)


lemma merge_from_mono:
  "a \<le> b \<Longrightarrow> snd pa \<le> snd pb \<Longrightarrow> length (merge_from b pb rest) \<le> length (merge_from a pa rest)"
proof (induction rest arbitrary: pa pb)
  case Nil
  then show ?case by simp
next
  case (Cons x rest)
  obtain s e where x: "x = (s, e)" by (cases x)
  show ?case
  proof (cases "s - snd pb < b")
    case mb: True
    show ?thesis
    proof (cases "s - snd pa < a")
      case True
      have "length (merge_from b (fst pb, max (snd pb) e) rest) \<le> length (merge_from a (fst pa, max (snd pa) e) rest)"
        using Cons.prems by (intro Cons.IH) auto
      then show ?thesis using mb True x by simp
    next
      case False
      have "length (merge_from b (fst pb, max (snd pb) e) rest) \<le> length (merge_from a (s, e) rest)"
        using Cons.prems by (intro Cons.IH) auto
      then show ?thesis using mb False x by simp
    qed
  next
    case nb: False
    then have na: "\<not> s - snd pa < a" using Cons.prems by linarith
    have "length (merge_from b (s, e) rest) \<le> length (merge_from a (s, e) rest)"
      using Cons.prems by (intro Cons.IH) auto
    then show ?thesis using nb na x by simp
  qed
qed

lemma merge_pass_mono: "a \<le> b \<Longrightarrow> length (merge_pass b xs) \<le> length (merge_pass a xs)"
  by (cases xs) (simp_all add: merge_pass_Cons merge_from_mono merge_pass_Nil)


lemma example_tokens_raw_runs:
  "raw_runs \<lparr>include_laughter = False, include_noise = False, include_filled_pause = True\<rparr>
     [\<lparr>itv_start = 0, itv_end = 1 / 2, itv_text = ''a''\<rparr>,
      \<lparr>itv_start = 1 / 2, itv_end = 3 / 5, itv_text = ''#''\<rparr>,
      \<lparr>itv_start = 3 / 5, itv_end = 1, itv_text = ''b''\<rparr>,
      \<lparr>itv_start = 1, itv_end = 3, itv_text = '' ''\<rparr>,
      \<lparr>itv_start = 3, itv_end = 4, itv_text = ''FP''\<rparr>]
   = [(0, 1 / 2), (3 / 5, 1), (3, 4)]"
  by (simp add: raw_runs_def is_token_in_ipu_def strip_def is_space_def lower_def lower_char_def
      SILENCE_LABEL_def)


text \<open>
  Claim C6.  For the same tokens and flags and thresholds \<open>0 \<le> a \<le> b\<close>, both calls return
  a segment list and the one for \<open>b\<close> is not longer than the one for \<open>a\<close>.
\<close>

theorem run_count_antitone_in_min_silence:
  assumes "0 \<le> a" and "a \<le> b"
  shows "\<exists>segs_a segs_b.
           build_ipu_segments_from_tokens tokens fl a = Inr segs_a
           \<and> build_ipu_segments_from_tokens tokens fl b = Inr segs_b
           \<and> length segs_b \<le> length segs_a"
proof -
  have "0 \<le> b" using assms by linarith
  then have "build_ipu_segments_from_tokens tokens fl b = Inr (merge_pass b (raw_runs fl tokens))"
    by (simp add: build_ipu_segments_from_tokens_def)
  moreover have "build_ipu_segments_from_tokens tokens fl a = Inr (merge_pass a (raw_runs fl tokens))"
    using assms(1) by (simp add: build_ipu_segments_from_tokens_def)
  moreover have "length (merge_pass b (raw_runs fl tokens)) \<le> length (merge_pass a (raw_runs fl tokens))"
    using assms(2) by (rule merge_pass_mono)
  ultimately show ?thesis by blast
qed

theorem run_count_antitone_in_min_silence_witness:
  "(0::real) \<le> 1 / 20 \<and> (1 / 20 :: real) \<le> 1 / 5
   \<and> build_ipu_segments_from_tokens
       [\<lparr>itv_start = 0, itv_end = 1 / 2, itv_text = ''a''\<rparr>,
        \<lparr>itv_start = 1 / 2, itv_end = 3 / 5, itv_text = ''#''\<rparr>,
        \<lparr>itv_start = 3 / 5, itv_end = 1, itv_text = ''b''\<rparr>,
        \<lparr>itv_start = 1, itv_end = 3, itv_text = '' ''\<rparr>,
        \<lparr>itv_start = 3, itv_end = 4, itv_text = ''FP''\<rparr>]
       \<lparr>include_laughter = False, include_noise = False, include_filled_pause = True\<rparr> (1 / 20)
     = Inr [(0, 1 / 2), (3 / 5, 1), (3, 4)]
   \<and> build_ipu_segments_from_tokens
       [\<lparr>itv_start = 0, itv_end = 1 / 2, itv_text = ''a''\<rparr>,
        \<lparr>itv_start = 1 / 2, itv_end = 3 / 5, itv_text = ''#''\<rparr>,
        \<lparr>itv_start = 3 / 5, itv_end = 1, itv_text = ''b''\<rparr>,
        \<lparr>itv_start = 1, itv_end = 3, itv_text = '' ''\<rparr>,
        \<lparr>itv_start = 3, itv_end = 4, itv_text = ''FP''\<rparr>]
       \<lparr>include_laughter = False, include_noise = False, include_filled_pause = True\<rparr> (1 / 5)
     = Inr [(0, 1), (3, 4)]
   \<and> length [(0 :: real, 1 :: real), (3, 4)] \<le> length [(0 :: real, 1 / 2 :: real), (3 / 5, 1), (3, 4)]"
proof -
  have p: "(0::real) \<le> 1 / 20" and q: "(1 / 20 :: real) \<le> 1 / 5" by simp_all
  note w = run_count_antitone_in_min_silence [OF p q,
        of "[\<lparr>itv_start = 0, itv_end = 1 / 2, itv_text = ''a''\<rparr>,
        \<lparr>itv_start = 1 / 2, itv_end = 3 / 5, itv_text = ''#''\<rparr>,
        \<lparr>itv_start = 3 / 5, itv_end = 1, itv_text = ''b''\<rparr>,
        \<lparr>itv_start = 1, itv_end = 3, itv_text = '' ''\<rparr>,
        \<lparr>itv_start = 3, itv_end = 4, itv_text = ''FP''\<rparr>]"
        "\<lparr>include_laughter = False, include_noise = False, include_filled_pause = True\<rparr>"]
  show ?thesis
    using w by (simp add: build_ipu_segments_from_tokens_def example_tokens_raw_runs merge_pass_def)
qed

subsection \<open>The rendered tier\<close>

lemma render_loop_render_from:
  "render_loop il sl kept out cursor
     = (out @ render_from il sl cursor kept, if kept = [] then cursor else snd (last kept))"
proof (induction kept arbitrary: out cursor)
  case Nil
  then show ?case by simp
next
  case (Cons p kept)
  obtain s e where p: "p = (s, e)" by (cases p)
  show ?case unfolding p by (simp add: Cons.IH)
qed

lemma tier_path_snoc:
  "tier_path a xs b \<Longrightarrow> b < c \<Longrightarrow> tier_path a (xs @ [\<lparr>itv_start = b, itv_end = c, itv_text = l\<rparr>]) c"
  by (induction xs arbitrary: a) auto

lemma tier_path_positive: "tier_path a xs b \<Longrightarrow> filter (\<lambda>itv. itv_end itv > itv_start itv) xs = xs"
  by (induction xs arbitrary: a) auto

lemma tier_path_le: "tier_path a xs b \<Longrightarrow> a \<le> b"
proof (induction xs arbitrary: a)
  case Nil
  then show ?case by simp
next
  case (Cons x xs)
  then have "itv_end x \<le> b" and "a < itv_end x" by auto
  then show ?case by linarith
qed

lemma tier_path_starts: "tier_path a xs b \<Longrightarrow> x \<in> set xs \<Longrightarrow> a \<le> itv_start x"
proof (induction xs arbitrary: a)
  case Nil
  then show ?case by simp
next
  case (Cons y ys)
  show ?case
  proof (cases "x = y")
    case True
    then show ?thesis using Cons.prems by simp
  next
    case False
    then have "x \<in> set ys" using Cons.prems by simp
    moreover have "tier_path (itv_end y) ys b" using Cons.prems by simp
    ultimately have "itv_end y \<le> itv_start x" by (rule Cons.IH [rotated])
    then show ?thesis using Cons.prems by simp
  qed
qed

lemma tier_path_ordered: "tier_path a xs b \<Longrightarrow> sorted_wrt (\<lambda>x y. itv_end x \<le> itv_start y) xs"
  by (induction xs arbitrary: a) (auto dest: tier_path_starts)

lemma tier_path_adjacent:
  "tier_path a xs b \<Longrightarrow> Suc i < length xs \<Longrightarrow> itv_end (xs ! i) = itv_start (xs ! Suc i)"
proof (induction xs arbitrary: a i)
  case Nil
  then show ?case by simp
next
  case (Cons x xs)
  show ?case
  proof (cases i)
    case 0
    then show ?thesis using Cons.prems by (cases xs) auto
  next
    case (Suc j)
    then show ?thesis using Cons.prems Cons.IH [of "itv_end x" j] by simp
  qed
qed

lemma tier_path_nth_positive:
  "tier_path a xs b \<Longrightarrow> i < length xs \<Longrightarrow> itv_start (xs ! i) < itv_end (xs ! i)"
proof (induction xs arbitrary: a i)
  case Nil
  then show ?case by simp
next
  case (Cons x xs)
  then show ?case by (cases i) auto
qed

lemma tier_path_ends:
  "tier_path a xs b \<Longrightarrow> xs \<noteq> [] \<Longrightarrow> itv_start (xs ! 0) = a \<and> itv_end (last xs) = b"
proof (induction xs arbitrary: a)
  case Nil
  then show ?case by simp
next
  case (Cons x xs)
  then show ?case by (cases xs) auto
qed

lemma render_from_path:
  assumes "\<forall>p \<in> set kept. fst p < snd p"
    and "sorted_wrt (\<lambda>a b. snd a \<le> fst b) kept"
    and "\<forall>p \<in> set kept. cursor \<le> fst p"
  shows "tier_path cursor (render_from il sl cursor kept)
           (if kept = [] then cursor else snd (last kept))"
  using assms
proof (induction kept arbitrary: cursor)
  case Nil
  then show ?case by simp
next
  case (Cons p kept)
  obtain s e where p: "p = (s, e)" by (cases p)
  have se: "s < e" and cs: "cursor \<le> s" using Cons.prems p by auto
  have "tier_path e (render_from il sl e kept) (if kept = [] then e else snd (last kept))"
    using Cons.prems p by (intro Cons.IH) auto
  then show ?case using se cs p by auto
qed

lemma keep_segments_member:
  "q \<in> set (keep_segments t_start t_end min_ipu_s segs) \<Longrightarrow>
   \<exists>p \<in> set segs. fst q = max t_start (fst p) \<and> snd q = min t_end (snd p)"
proof (induction segs)
  case Nil
  then show ?case by simp
next
  case (Cons x segs)
  obtain s e where x: "x = (s, e)" by (cases x)
  show ?case using Cons unfolding x by (auto split: if_splits)
qed

lemma keep_segments_non_overlapping:
  "sorted_wrt (\<lambda>a b. snd a \<le> fst b) segs \<Longrightarrow>
   sorted_wrt (\<lambda>a b. snd a \<le> fst b) (keep_segments t_start t_end min_ipu_s segs)"
proof (induction segs)
  case Nil
  then show ?case by simp
next
  case (Cons x segs)
  obtain s e where x: "x = (s, e)" by (cases x)
  have tl: "sorted_wrt (\<lambda>a b. snd a \<le> fst b) (keep_segments t_start t_end min_ipu_s segs)"
    using Cons by simp
  have "min t_end e \<le> fst q" if q: "q \<in> set (keep_segments t_start t_end min_ipu_s segs)" for q
  proof -
    obtain p where pm: "p \<in> set segs" and fq: "fst q = max t_start (fst p)"
      using keep_segments_member [OF q] by blast
    have "e \<le> fst p" using Cons.prems pm x by auto
    then show ?thesis using fq by linarith
  qed
  then show ?case using tl unfolding x by simp
qed

lemma kept_ready:
  fixes t_start t_end min_ipu_s :: real
  assumes "non_overlapping segs"
    and "kept = filter (\<lambda>(s, e). e > s) (keep_segments t_start t_end min_ipu_s segs)"
  shows "\<forall>p \<in> set kept. fst p < snd p"
    and "sorted_wrt (\<lambda>a b. snd a \<le> fst b) kept"
    and "\<forall>p \<in> set kept. t_start \<le> fst p"
    and "\<forall>p \<in> set kept. snd p \<le> t_end"
proof -
  show "\<forall>p \<in> set kept. fst p < snd p"
    by (auto simp: assms(2))
  show "sorted_wrt (\<lambda>a b. snd a \<le> fst b) kept"
    unfolding assms(2) using assms(1)
    by (intro sorted_wrt_filter keep_segments_non_overlapping) (simp add: non_overlapping_def)
  show "\<forall>p \<in> set kept. t_start \<le> fst p"
    unfolding assms(2) by (auto dest!: keep_segments_member)
  show "\<forall>p \<in> set kept. snd p \<le> t_end"
    unfolding assms(2) by (auto dest!: keep_segments_member)
qed

lemma rendered_tier_path:
  assumes "t_start \<le> t_end" and "0 \<le> min_ipu_s" and "non_overlapping segs"
  shows "\<exists>tier. apply_min_ipu_and_render_full_tier t_start t_end segs min_ipu_s il sl = Inr tier
           \<and> tier_path t_start tier t_end"
proof -
  define kept where "kept = filter (\<lambda>(s, e). e > s) (keep_segments t_start t_end min_ipu_s segs)"
  define cursor where "cursor = (if kept = [] then t_start else snd (last kept))"
  define body where "body = render_from il sl t_start kept"
  define out where "out = (if cursor < t_end
      then body @ [\<lparr>itv_start = cursor, itv_end = t_end, itv_text = sl\<rparr>] else body)"
  note k = kept_ready [OF assms(3) kept_def]
  have body: "tier_path t_start body cursor"
    unfolding body_def cursor_def using k(1,2,3) by (rule render_from_path)
  have "cursor \<le> t_end"
  proof (cases "kept = []")
    case True
    then show ?thesis using assms(1) by (simp add: cursor_def)
  next
    case False
    then have "last kept \<in> set kept" by simp
    then show ?thesis using k(4) False by (simp add: cursor_def)
  qed
  then have out: "tier_path t_start out t_end"
    using body by (auto simp: out_def intro: tier_path_snoc)
  have rl: "render_loop il sl kept [] t_start = (body, cursor)"
    by (simp add: render_loop_render_from body_def cursor_def)
  have "apply_min_ipu_and_render_full_tier t_start t_end segs min_ipu_s il sl
      = Inr (filter (\<lambda>itv. itv_end itv > itv_start itv) out)"
    unfolding apply_min_ipu_and_render_full_tier_def Let_def
    using assms(1,2) rl [unfolded kept_def] by (simp add: out_def)
  then show ?thesis using out by (simp add: tier_path_positive)
qed

text \<open>
  Claim C3, amended.  For \<open>t_start \<le> t_end\<close>, \<open>min_ipu_s \<ge> 0\<close> and a segment list in which
  every segment ends before any later one starts, \<open>apply_min_ipu_and_render_full_tier\<close>
  returns a tier whose intervals have strictly positive duration, each of which starts
  where the one before ends; a non-empty tier starts at \<open>t_start\<close> and ends at \<open>t_end\<close>,
  the tier is non-empty when \<open>t_start < t_end\<close>, and its intervals are ordered and do not
  overlap.
\<close>

theorem rendered_tier_covers_timeline:
  assumes "t_start \<le> t_end" and "0 \<le> min_ipu_s" and "non_overlapping ipu_segments"
  shows "\<exists>tier.
      apply_min_ipu_and_render_full_tier t_start t_end ipu_segments min_ipu_s ipu_label silence_label
        = Inr tier
      \<and> (\<forall>i < length tier. itv_start (tier ! i) < itv_end (tier ! i))
      \<and> (\<forall>i. Suc i < length tier \<longrightarrow> itv_end (tier ! i) = itv_start (tier ! Suc i))
      \<and> (tier \<noteq> [] \<longrightarrow> itv_start (tier ! 0) = t_start \<and> itv_end (last tier) = t_end)
      \<and> (t_start < t_end \<longrightarrow> tier \<noteq> [])
      \<and> sorted_wrt (\<lambda>x y. itv_end x \<le> itv_start y) tier"
proof -
  obtain tier where r: "apply_min_ipu_and_render_full_tier t_start t_end ipu_segments min_ipu_s
        ipu_label silence_label = Inr tier"
    and p: "tier_path t_start tier t_end"
    using rendered_tier_path [OF assms] by blast
  have "\<forall>i < length tier. itv_start (tier ! i) < itv_end (tier ! i)"
    using p by (simp add: tier_path_nth_positive)
  moreover have "\<forall>i. Suc i < length tier \<longrightarrow> itv_end (tier ! i) = itv_start (tier ! Suc i)"
    using p by (simp add: tier_path_adjacent)
  moreover have "tier \<noteq> [] \<longrightarrow> itv_start (tier ! 0) = t_start \<and> itv_end (last tier) = t_end"
    using p tier_path_ends by blast
  moreover have "t_start < t_end \<longrightarrow> tier \<noteq> []"
    using p by auto
  moreover have "sorted_wrt (\<lambda>x y. itv_end x \<le> itv_start y) tier"
    using p by (rule tier_path_ordered)
  ultimately show ?thesis using r by blast
qed

theorem rendered_tier_covers_timeline_witness:
  "(0::real) \<le> 2 \<and> (0::real) \<le> 1 / 20 \<and> non_overlapping [(1 / 2, 1), (3 / 2, 38 / 25)]
   \<and> apply_min_ipu_and_render_full_tier 0 2 [(1 / 2, 1), (3 / 2, 38 / 25)] (1 / 20) ''IPU'' ''#''
       = Inr [\<lparr>itv_start = 0, itv_end = 1 / 2, itv_text = ''#''\<rparr>,
              \<lparr>itv_start = 1 / 2, itv_end = 1, itv_text = ''IPU''\<rparr>,
              \<lparr>itv_start = 1, itv_end = 2, itv_text = ''#''\<rparr>]
   \<and> itv_start ([\<lparr>itv_start = 0, itv_end = 1 / 2, itv_text = ''#''\<rparr>,
              \<lparr>itv_start = 1 / 2, itv_end = 1, itv_text = ''IPU''\<rparr>,
              \<lparr>itv_start = 1, itv_end = 2, itv_text = ''#''\<rparr>] ! 0) = (0::real)
   \<and> itv_end (last [\<lparr>itv_start = 0, itv_end = 1 / 2, itv_text = ''#''\<rparr>,
              \<lparr>itv_start = 1 / 2, itv_end = 1, itv_text = ''IPU''\<rparr>,
              \<lparr>itv_start = 1, itv_end = 2, itv_text = ''#''\<rparr>]) = (2::real)"
proof -
  have a: "(0::real) \<le> 2" and b: "(0::real) \<le> 1 / 20"
    and c: "non_overlapping [(1 / 2, 1), (3 / 2, 38 / 25 :: real)]"
    by (simp_all add: non_overlapping_def)
  have r: "apply_min_ipu_and_render_full_tier 0 2 [(1 / 2, 1), (3 / 2, 38 / 25)] (1 / 20) ''IPU'' ''#''
       = Inr [\<lparr>itv_start = 0, itv_end = 1 / 2, itv_text = ''#''\<rparr>,
              \<lparr>itv_start = 1 / 2, itv_end = 1, itv_text = ''IPU''\<rparr>,
              \<lparr>itv_start = 1, itv_end = 2, itv_text = ''#''\<rparr>]"
    by (simp add: apply_min_ipu_and_render_full_tier_def)
  show ?thesis
    using rendered_tier_covers_timeline [OF a b c, of "''IPU''" "''#''"] a b c unfolding r by simp
qed

text \<open>
  Claim C3 as stated fails: the list \<open>[(0, 5), (1, 2)]\<close> is ordered by \<open>(start, end)\<close>, and
  over \<open>[0, 10]\<close> the tier has a first interval ending at 5 followed by one starting at 1.
\<close>

theorem rendered_tier_overlapping_counterexample:
  "(0::real) \<le> 10 \<and> time_ordered [(0, 5), (1, 2)]
   \<and> apply_min_ipu_and_render_full_tier 0 10 [(0, 5), (1, 2)] 0 ''IPU'' ''#''
       = Inr [\<lparr>itv_start = 0, itv_end = 5, itv_text = ''IPU''\<rparr>,
              \<lparr>itv_start = 1, itv_end = 2, itv_text = ''IPU''\<rparr>,
              \<lparr>itv_start = 2, itv_end = 10, itv_text = ''#''\<rparr>]
   \<and> itv_end ([\<lparr>itv_start = 0, itv_end = 5, itv_text = ''IPU''\<rparr>,
              \<lparr>itv_start = 1, itv_end = 2, itv_text = ''IPU''\<rparr>,
              \<lparr>itv_start = 2, itv_end = 10 :: real, itv_text = ''#''\<rparr>] ! 0)
     \<noteq> itv_start ([\<lparr>itv_start = 0, itv_end = 5, itv_text = ''IPU''\<rparr>,
              \<lparr>itv_start = 1, itv_end = 2, itv_text = ''IPU''\<rparr>,
              \<lparr>itv_start = 2, itv_end = 10 :: real, itv_text = ''#''\<rparr>] ! Suc 0)"
  by (simp add: apply_min_ipu_and_render_full_tier_def time_ordered_def)

subsection \<open>Segments built from well-formed tokens do not overlap\<close>

lemma scan_tokens_wf:
  assumes "\<forall>t \<in> set tokens. itv_start t \<le> itv_end t"
    and "\<forall>p \<in> set raw. fst p \<le> snd p"
    and "\<forall>p \<in> set_option current. fst p \<le> snd p"
    and "scan_tokens fl tokens raw current = (raw', current')"
  shows "(\<forall>p \<in> set raw'. fst p \<le> snd p) \<and> (\<forall>p \<in> set_option current'. fst p \<le> snd p)"
  using assms
proof (induction tokens arbitrary: raw current)
  case Nil
  then show ?case by simp
next
  case (Cons itv tokens)
  have t: "\<forall>t \<in> set tokens. itv_start t \<le> itv_end t" and i: "itv_start itv \<le> itv_end itv"
    using Cons.prems(1) by simp_all
  show ?case
  proof (cases "is_token_in_ipu (itv_text itv) fl")
    case True
    show ?thesis
    proof (cases current)
      case None
      then have sc: "scan_tokens fl tokens raw (Some (itv_start itv, itv_end itv)) = (raw', current')"
        using Cons.prems(4) True by simp
      have c: "\<forall>p \<in> set_option (Some (itv_start itv, itv_end itv)). fst p \<le> snd p"
        using i by simp
      show ?thesis using Cons.IH [OF t Cons.prems(2) c sc] .
    next
      case (Some p)
      obtain s e where p: "p = (s, e)" by (cases p)
      have "s \<le> e" using Cons.prems(3) Some p by simp
      then have c: "\<forall>p \<in> set_option (Some (s, max e (itv_end itv))). fst p \<le> snd p" by simp
      have sc: "scan_tokens fl tokens raw (Some (s, max e (itv_end itv))) = (raw', current')"
        using Cons.prems(4) True Some p by simp
      show ?thesis using Cons.IH [OF t Cons.prems(2) c sc] .
    qed
  next
    case False
    have n: "\<forall>p \<in> set_option (None :: segment option). fst p \<le> snd p" by simp
    show ?thesis
    proof (cases current)
      case None
      then have sc: "scan_tokens fl tokens raw None = (raw', current')"
        using Cons.prems(4) False by simp
      show ?thesis using Cons.IH [OF t Cons.prems(2) n sc] .
    next
      case (Some p)
      obtain s e where p: "p = (s, e)" by (cases p)
      have "s \<le> e" using Cons.prems(3) Some p by simp
      then have r: "\<forall>q \<in> set (raw @ [(s, e)]). fst q \<le> snd q" using Cons.prems(2) by simp
      have sc: "scan_tokens fl tokens (raw @ [(s, e)]) None = (raw', current')"
        using Cons.prems(4) False Some p by simp
      show ?thesis using Cons.IH [OF t r n sc] .
    qed
  qed
qed

lemma raw_runs_wf:
  assumes "\<forall>t \<in> set tokens. itv_start t \<le> itv_end t"
  shows "\<forall>p \<in> set (raw_runs fl tokens). fst p \<le> snd p"
proof -
  obtain raw' current' where s: "scan_tokens fl tokens [] None = (raw', current')"
    by (cases "scan_tokens fl tokens [] None")
  have e: "\<forall>p \<in> set ([] :: segment list). fst p \<le> snd p"
    and n: "\<forall>p \<in> set_option (None :: segment option). fst p \<le> snd p"
    by simp_all
  note w = scan_tokens_wf [OF assms e n s]
  show ?thesis
  proof (cases current')
    case None
    then show ?thesis using w s by (simp add: raw_runs_def)
  next
    case (Some p)
    then show ?thesis using w s by (cases p) (auto simp: raw_runs_def)
  qed
qed

lemma merge_from_wf:
  "fst p \<le> snd p \<Longrightarrow> \<forall>q \<in> set rest. fst q \<le> snd q
     \<Longrightarrow> \<forall>q \<in> set (merge_from ms p rest). fst q \<le> snd q"
proof (induction ms p rest rule: merge_from.induct)
  case (1 ms p)
  then show ?case by simp
next
  case (2 ms p s e rest)
  then show ?case by (cases "s - snd p < ms") auto
qed

lemma gaps_ok_non_overlapping:
  "0 \<le> ms \<Longrightarrow> gaps_ok ms xs \<Longrightarrow> \<forall>q \<in> set xs. fst q \<le> snd q
     \<Longrightarrow> sorted_wrt (\<lambda>a b. snd a \<le> fst b) xs"
proof (induction ms xs rule: gaps_ok.induct)
  case (1 ms)
  then show ?case by simp
next
  case (2 ms x)
  then show ?case by simp
next
  case (3 ms x y xs)
  have t: "sorted_wrt (\<lambda>a b. snd a \<le> fst b) (y # xs)" using 3 by simp
  have xy: "snd x \<le> fst y" using "3.prems" by simp
  have "snd x \<le> fst z" if "z \<in> set xs" for z
  proof -
    have "snd y \<le> fst z" using t that by simp
    moreover have "fst y \<le> snd y" using "3.prems"(3) by simp
    ultimately show ?thesis using xy by linarith
  qed
  then show ?case using t xy by simp
qed

lemma build_output_non_overlapping:
  assumes "\<forall>t \<in> set tokens. itv_start t \<le> itv_end t"
    and "build_ipu_segments_from_tokens tokens fl min_silence_s = Inr segs"
  shows "non_overlapping segs"
proof -
  have ms: "0 \<le> min_silence_s" and segs: "segs = merge_pass min_silence_s (raw_runs fl tokens)"
    using assms(2) by (auto simp: build_ipu_segments_from_tokens_def split: if_splits)
  have wf: "\<forall>q \<in> set segs. fst q \<le> snd q"
  proof (cases "raw_runs fl tokens")
    case Nil
    then show ?thesis by (simp add: segs merge_pass_Nil)
  next
    case (Cons p rest)
    then have "fst p \<le> snd p" and "\<forall>q \<in> set rest. fst q \<le> snd q"
      using raw_runs_wf [OF assms(1), of fl] by simp_all
    then show ?thesis unfolding segs Cons merge_pass_Cons by (rule merge_from_wf)
  qed
  have "gaps_ok min_silence_s segs" unfolding segs by (rule gaps_ok_merge_pass)
  then show ?thesis unfolding non_overlapping_def using ms wf by (intro gaps_ok_non_overlapping)
qed

section \<open>Properties of the alignment\<close>

subsection \<open>The matching window\<close>








subsection \<open>Unmatched anchor rows\<close>






subsection \<open>Nearest candidate and ties\<close>






section \<open>Properties of the error messages\<close>

lemma sublist_in_message: "sublist x m \<Longrightarrow> sublist x (pre @ m @ post)"
proof -
  assume "sublist x m"
  then obtain ps ss where "m = ps @ x @ ss" by (auto simp: sublist_def)
  then have "pre @ m @ post = (pre @ ps) @ x @ (ss @ post)" by simp
  then show ?thesis unfolding sublist_def by blast
qed

lemma sublist_join: "x \<in> set xs \<Longrightarrow> sublist x (join sep xs)"
proof (induction sep xs rule: join.induct)
  case (1 sep)
  then show ?case by simp
next
  case (2 sep y)
  then show ?case by simp
next
  case (3 sep y z zs)
  show ?case
  proof (cases "x = y")
    case True
    then show ?thesis by simp
  next
    case False
    then have "sublist x (join sep (z # zs))" using 3 by simp
    then have "sublist x ((y @ sep) @ join sep (z # zs) @ [])"
      by (rule sublist_in_message)
    then show ?thesis by simp
  qed
qed

lemma sublist_py_str_list: "c \<in> set cols \<Longrightarrow> sublist (py_repr c) (py_str_list cols)"
proof -
  assume "c \<in> set cols"
  then have "sublist (py_repr c) (join '', '' (map py_repr cols))"
    by (intro sublist_join) simp
  then obtain ps ss where "join '', '' (map py_repr cols) = ps @ py_repr c @ ss"
    by (auto simp: sublist_def)
  then have "py_str_list cols = (''['' @ ps) @ py_repr c @ (ss @ '']'')"
    by (simp add: py_str_list_def)
  then show ?thesis unfolding sublist_def by blast
qed

lemma set_required_cols:
  "set required_cols_sorted = {''start'', ''end'', ''annotation'', ''duration'', ''n_syllables'', ''rate''}"
  by (auto simp: required_cols_sorted_def)

text \<open>
  Claim C8, amended.  When \<open>metadata_df_to_mne_events\<close> is given a frame without the
  timestamp column, it fails with a \<open>ValueError\<close> whose message names that column and
  lists every column of the frame.  When \<open>_clean_and_prefix_ipu\<close> is given a table that
  lacks one of \<open>start\<close>, \<open>end\<close>, \<open>annotation\<close>, \<open>duration\<close>, \<open>n_syllables\<close>, \<open>rate\<close>, it
  fails with a \<open>ValueError\<close> whose message names the speaker and every missing required
  column.
\<close>

theorem missing_column_messages:
  "(timestamp_col \<notin> set (md_columns metadata) \<longrightarrow>
      (\<exists>msg. metadata_df_to_mne_events fmul metadata sfreq_hz first_samp timestamp_col event_id
                = Inl (ValueError msg)
         \<and> sublist (py_repr timestamp_col) msg
         \<and> (\<forall>c \<in> set (md_columns metadata). sublist (py_repr c) msg)))
   \<and> ((\<exists>c \<in> {''start'', ''end'', ''annotation'', ''duration'', ''n_syllables'', ''rate''}.
          c \<notin> set (columns ipu)) \<longrightarrow>
      (\<exists>msg. clean_and_prefix_ipu ipu speaker = Inl (ValueError msg)
         \<and> sublist speaker msg
         \<and> (\<forall>c \<in> {''start'', ''end'', ''annotation'', ''duration'', ''n_syllables'', ''rate''}.
               c \<notin> set (columns ipu) \<longrightarrow> sublist (py_repr c) msg)))"
proof (intro conjI impI)
  assume a: "timestamp_col \<notin> set (md_columns metadata)"
  define msg where "msg = ''metadata_df must contain column '' @ py_repr timestamp_col
                  @ ''. Found: '' @ py_str_list (md_columns metadata)"
  have "metadata_df_to_mne_events fmul metadata sfreq_hz first_samp timestamp_col event_id
          = Inl (ValueError msg)"
    using a by (simp add: metadata_df_to_mne_events_def msg_def)
  moreover have "sublist (py_repr timestamp_col) msg"
    unfolding msg_def by (rule sublist_appendI)
  moreover have "\<forall>c \<in> set (md_columns metadata). sublist (py_repr c) msg"
  proof
    fix c assume "c \<in> set (md_columns metadata)"
    then have "sublist (py_repr c) (py_str_list (md_columns metadata))"
      by (rule sublist_py_str_list)
    then have "sublist (py_repr c)
        ((''metadata_df must contain column '' @ py_repr timestamp_col @ ''. Found: '')
          @ py_str_list (md_columns metadata) @ [])"
      by (rule sublist_in_message)
    then show "sublist (py_repr c) msg" by (simp add: msg_def)
  qed
  ultimately show "\<exists>msg. metadata_df_to_mne_events fmul metadata sfreq_hz first_samp timestamp_col event_id
                = Inl (ValueError msg)
         \<and> sublist (py_repr timestamp_col) msg
         \<and> (\<forall>c \<in> set (md_columns metadata). sublist (py_repr c) msg)"
    by blast
next
  assume a: "\<exists>c \<in> {''start'', ''end'', ''annotation'', ''duration'', ''n_syllables'', ''rate''}.
          c \<notin> set (columns ipu)"
  define missing where "missing = missing_cols (columns ipu)"
  define msg where "msg = speaker @ '' IPU table missing required columns: '' @ py_str_list missing"
  have mem: "c \<in> set missing \<longleftrightarrow>
      c \<in> {''start'', ''end'', ''annotation'', ''duration'', ''n_syllables'', ''rate''}
      \<and> c \<notin> set (columns ipu)" for c
    by (simp only: missing_def missing_cols_def set_filter set_required_cols mem_Collect_eq)
  obtain c0 where "c0 \<in> {''start'', ''end'', ''annotation'', ''duration'', ''n_syllables'', ''rate''}"
    and "c0 \<notin> set (columns ipu)"
    using a by (rule bexE)
  then have "c0 \<in> set missing" by (simp only: mem simp_thms)
  then have "missing \<noteq> []" by (cases missing) simp_all
  then have "clean_and_prefix_ipu ipu speaker = Inl (ValueError msg)"
    by (simp add: clean_and_prefix_ipu_def missing_def msg_def Let_def)
  moreover have "sublist speaker msg"
    unfolding msg_def by (rule sublist_append_rightI)
  moreover have "\<forall>c \<in> {''start'', ''end'', ''annotation'', ''duration'', ''n_syllables'', ''rate''}.
               c \<notin> set (columns ipu) \<longrightarrow> sublist (py_repr c) msg"
  proof (intro ballI impI)
    fix c assume "c \<in> {''start'', ''end'', ''annotation'', ''duration'', ''n_syllables'', ''rate''}"
      and "c \<notin> set (columns ipu)"
    then have "c \<in> set missing" by (simp only: mem simp_thms)
    then have "sublist (py_repr c) (py_str_list missing)" by (rule sublist_py_str_list)
    then have "sublist (py_repr c)
        ((speaker @ '' IPU table missing required columns: '') @ py_str_list missing @ [])"
      by (rule sublist_in_message)
    then show "sublist (py_repr c) msg" by (simp add: msg_def)
  qed
  ultimately show "\<exists>msg. clean_and_prefix_ipu ipu speaker = Inl (ValueError msg)
         \<and> sublist speaker msg
         \<and> (\<forall>c \<in> {''start'', ''end'', ''annotation'', ''duration'', ''n_syllables'', ''rate''}.
               c \<notin> set (columns ipu) \<longrightarrow> sublist (py_repr c) msg)"
    by blast
qed

theorem missing_column_messages_witness:
  "''timestamp'' \<notin> set (md_columns [(''x'', [Finite 1])])
   \<and> metadata_df_to_mne_events exact_mul [(''x'', [Finite 1])] 100 0 ''timestamp'' 1
       = Inl (ValueError (''metadata_df must contain column '' @ [CHR 0x27] @ ''timestamp''
           @ [CHR 0x27] @ ''. Found: ['' @ [CHR 0x27] @ ''x'' @ [CHR 0x27] @ '']''))
   \<and> sublist (py_repr ''x'') (''metadata_df must contain column '' @ [CHR 0x27] @ ''timestamp''
           @ [CHR 0x27] @ ''. Found: ['' @ [CHR 0x27] @ ''x'' @ [CHR 0x27] @ '']'')
   \<and> ''rate'' \<notin> set (columns \<lparr>columns = [''start'', ''end'', ''annotation'', ''duration'',
         ''n_syllables''], rows = []\<rparr>)
   \<and> clean_and_prefix_ipu \<lparr>columns = [''start'', ''end'', ''annotation'', ''duration'',
         ''n_syllables''], rows = []\<rparr> ''other''
       = Inl (ValueError (''other IPU table missing required columns: ['' @ [CHR 0x27] @ ''rate''
           @ [CHR 0x27] @ '']''))
   \<and> sublist (py_repr ''rate'') (''other IPU table missing required columns: ['' @ [CHR 0x27] @ ''rate''
           @ [CHR 0x27] @ '']'')"
proof -
  have t: "''timestamp'' \<notin> set (md_columns [(''x'', [Finite 1])])"
    by (simp add: md_columns_def)
  have r: "''rate'' \<notin> set (columns \<lparr>columns = [''start'', ''end'', ''annotation'', ''duration'',
         ''n_syllables''], rows = []\<rparr>)"
    by simp
  have e1: "metadata_df_to_mne_events exact_mul [(''x'', [Finite 1])] 100 0 ''timestamp'' 1
       = Inl (ValueError (''metadata_df must contain column '' @ [CHR 0x27] @ ''timestamp''
           @ [CHR 0x27] @ ''. Found: ['' @ [CHR 0x27] @ ''x'' @ [CHR 0x27] @ '']''))"
    by (simp add: metadata_df_to_mne_events_def md_columns_def py_repr_def py_str_list_def)
  have e2: "clean_and_prefix_ipu \<lparr>columns = [''start'', ''end'', ''annotation'', ''duration'',
         ''n_syllables''], rows = []\<rparr> ''other''
       = Inl (ValueError (''other IPU table missing required columns: ['' @ [CHR 0x27] @ ''rate''
           @ [CHR 0x27] @ '']''))"
    by (simp add: clean_and_prefix_ipu_def missing_cols_def required_cols_sorted_def py_repr_def
        py_str_list_def)
  note w = missing_column_messages [of "''timestamp''" "[(''x'', [Finite 1])]" exact_mul 100 0 1
      "\<lparr>columns = [''start'', ''end'', ''annotation'', ''duration'', ''n_syllables''], rows = []\<rparr>"
      "''other''"]
  have s1: "sublist (py_repr ''x'') (''metadata_df must contain column '' @ [CHR 0x27] @ ''timestamp''
           @ [CHR 0x27] @ ''. Found: ['' @ [CHR 0x27] @ ''x'' @ [CHR 0x27] @ '']'')"
    using w [THEN conjunct1, rule_format, OF t] unfolding e1 by (simp add: md_columns_def)
  have s2: "sublist (py_repr ''rate'') (''other IPU table missing required columns: ['' @ [CHR 0x27] @ ''rate''
           @ [CHR 0x27] @ '']'')"
    using w [THEN conjunct2] r unfolding e2 by simp
  show ?thesis using t r e1 e2 s1 s2 by blast
qed

text \<open>
  Claim C8 as stated fails for the clean step: a table with the columns \<open>start\<close>, \<open>end\<close>,
  \<open>annotation\<close>, \<open>duration\<close>, \<open>n_syllables\<close> and \<open>tier\<close> lacks \<open>rate\<close>, and the message of the
  error names \<open>rate\<close> but does not mention the present column \<open>tier\<close>.
\<close>

theorem clean_message_omits_present_columns_counterexample:
  "''tier'' \<in> set (columns \<lparr>columns = [''start'', ''end'', ''annotation'', ''duration'',
         ''n_syllables'', ''tier''], rows = []\<rparr>)
   \<and> clean_and_prefix_ipu \<lparr>columns = [''start'', ''end'', ''annotation'', ''duration'',
         ''n_syllables'', ''tier''], rows = []\<rparr> ''self''
       = Inl (ValueError (''self IPU table missing required columns: ['' @ [CHR 0x27] @ ''rate''
           @ [CHR 0x27] @ '']''))
   \<and> \<not> sublist ''tier'' (''self IPU table missing required columns: ['' @ [CHR 0x27] @ ''rate''
           @ [CHR 0x27] @ '']'')"
proof -
  have "\<not> sublist ''tier'' (''self IPU table missing required columns: ['' @ [CHR 0x27] @ ''rate''
           @ [CHR 0x27] @ '']'')"
    by (simp add: sublist_code)
  then show ?thesis
    by (simp add: clean_and_prefix_ipu_def missing_cols_def required_cols_sorted_def py_repr_def
        py_str_list_def)
qed

section \<open>Properties of the event conversion\<close>

lemma rint_nearest: "\<bar>of_int (rint x) - x\<bar> \<le> 1 / 2"
proof -
  have "of_int \<lfloor>x\<rfloor> \<le> x" and "x < of_int \<lfloor>x\<rfloor> + 1" by linarith+
  then show ?thesis by (auto simp: rint_def Let_def)
qed

lemma rint_tie_even:
  assumes "\<bar>of_int (rint x) - x\<bar> = 1 / 2"
  shows "even (rint x)"
proof -
  have f: "of_int \<lfloor>x\<rfloor> \<le> x" "x < of_int \<lfloor>x\<rfloor> + 1" by linarith+
  show ?thesis
  proof (cases "x - of_int \<lfloor>x\<rfloor> < 1 / 2")
    case True
    then have "rint x = \<lfloor>x\<rfloor>" by (simp add: rint_def Let_def)
    then show ?thesis using assms True f by auto
  next
    case False
    show ?thesis
    proof (cases "1 / 2 < x - of_int \<lfloor>x\<rfloor>")
      case True
      then have "rint x = \<lfloor>x\<rfloor> + 1" using False by (simp add: rint_def Let_def)
      then show ?thesis using assms True f by auto
    next
      case False
      then show ?thesis using \<open>\<not> x - of_int \<lfloor>x\<rfloor> < 1 / 2\<close> by (simp add: rint_def Let_def)
    qed
  qed
qed

lemma rint_half: "rint (of_int k + 1 / 2) = (if even k then k else k + 1)"
proof -
  have "\<lfloor>of_int k + (1 / 2 :: real)\<rfloor> = k" by linarith
  then show ?thesis by (simp add: rint_def Let_def)
qed

lemma rint_between:
  assumes "of_int lo \<le> x" and "x \<le> of_int hi"
  shows "lo \<le> rint x \<and> rint x \<le> hi"
proof -
  have l: "lo \<le> \<lfloor>x\<rfloor>" using assms(1) by (simp add: le_floor_iff)
  have f: "of_int \<lfloor>x\<rfloor> \<le> x" by linarith
  have u: "\<lfloor>x\<rfloor> + 1 \<le> hi" if "of_int \<lfloor>x\<rfloor> < x"
  proof -
    have "of_int \<lfloor>x\<rfloor> < (of_int hi :: real)" using that assms(2) by linarith
    then have "\<lfloor>x\<rfloor> < hi" by simp
    then show ?thesis by simp
  qed
  have "x < of_int hi + 1" using assms(2) by linarith
  then have h: "\<lfloor>x\<rfloor> \<le> hi" by (simp add: floor_le_iff)
  show ?thesis
  proof (cases "x - of_int \<lfloor>x\<rfloor> < 1 / 2")
    case True
    then have "rint x = \<lfloor>x\<rfloor>" by (simp add: rint_def Let_def)
    then show ?thesis using l h by simp
  next
    case False
    then have "of_int \<lfloor>x\<rfloor> < x" by linarith
    then have "\<lfloor>x\<rfloor> + 1 \<le> hi" by (rule u)
    moreover have "rint x = \<lfloor>x\<rfloor> \<or> rint x = \<lfloor>x\<rfloor> + 1" by (simp add: rint_def Let_def)
    ultimately show ?thesis using l by auto
  qed
qed

lemma sint_int64_sum:
  assumes "fits_int64 a" and "fits_int64 (a + b)"
  shows "sint (word_of_int a + word_of_int b :: 64 word) = a + b"
proof -
  have "sint (word_of_int (a + b) :: 64 word) = signed_take_bit (LENGTH(64) - 1) (a + b)"
    by (rule sint_sbintrunc')
  also have "\<dots> = a + b"
    using assms(2) by (simp add: signed_take_bit_int_eq_self fits_int64_def)
  finally have "sint (word_of_int (a + b) :: 64 word) = a + b" .
  then show ?thesis by (simp only: of_int_add)
qed

lemma sample_in_range:
  assumes "- (2 ^ 63) \<le> p" and "p \<le> 2 ^ 63 - 1"
    and "- (2 ^ 63) \<le> p + of_int first_samp" and "p + of_int first_samp \<le> 2 ^ 63 - 1"
  shows "sint (astype_int64 (Finite p) + word_of_int first_samp) = rint p + first_samp"
proof -
  have "of_int (- (2 ^ 63)) \<le> p" and "p \<le> of_int (2 ^ 63 - 1)" using assms(1,2) by simp_all
  then have r: "- (2 ^ 63) \<le> rint p \<and> rint p \<le> 2 ^ 63 - 1" by (rule rint_between)
  then have a: "fits_int64 (rint p)" by (simp add: fits_int64_def)
  have "of_int (- (2 ^ 63) - first_samp) \<le> p" and "p \<le> of_int (2 ^ 63 - 1 - first_samp)"
    using assms(3,4) by simp_all
  then have "- (2 ^ 63) - first_samp \<le> rint p \<and> rint p \<le> 2 ^ 63 - 1 - first_samp"
    by (rule rint_between)
  then have b: "fits_int64 (rint p + first_samp)" by (simp add: fits_int64_def)
  show ?thesis using a sint_int64_sum [OF a b] by (simp add: astype_int64_def)
qed

lemma events_eq:
  assumes "timestamp_col \<in> set (md_columns metadata)"
    and "fits_int64 first_samp" and "fits_int64 event_id"
  shows "metadata_df_to_mne_events fmul metadata sfreq_hz first_samp timestamp_col event_id
     = Inr (map (\<lambda>t. (sint (astype_int64 (fmul t sfreq_hz) + word_of_int first_samp), 0, event_id))
            (finite_values (md_column metadata timestamp_col)))"
  using assms by (simp add: metadata_df_to_mne_events_def Let_def comp_def)

text \<open>
  Claim C4, amended.  When the timestamp column is present and \<open>first_samp\<close> and
  \<open>event_id\<close> are 64-bit integers, one event is emitted for each cell that is a finite
  number, in row order.  If the computed product \<open>p = timestamp * sfreq_hz\<close> is finite and
  \<open>p\<close> and \<open>p + first_samp\<close> lie within the 64-bit range, the sample index is
  \<open>n + first_samp\<close> where \<open>n\<close> is an integer nearest to \<open>p\<close>, and when two integers are
  equally near \<open>n\<close> is the even one: if \<open>p\<close> is exactly \<open>k + 0.5\<close> for an integer \<open>k\<close>, the
  sample index is \<open>k + first_samp\<close> for even \<open>k\<close> and \<open>k + 1 + first_samp\<close> for odd \<open>k\<close>.
\<close>

theorem event_samples_round_half_even:
  assumes "timestamp_col \<in> set (md_columns metadata)"
    and "- (2 ^ 63) \<le> first_samp" and "first_samp < 2 ^ 63"
    and "- (2 ^ 63) \<le> event_id" and "event_id < 2 ^ 63"
    and "timestamps_s = finite_values (md_column metadata timestamp_col)"
  shows "\<exists>events.
      metadata_df_to_mne_events fmul metadata sfreq_hz first_samp timestamp_col event_id = Inr events
      \<and> length events = length timestamps_s
      \<and> (\<forall>i < length timestamps_s. \<forall>p.
            fmul (timestamps_s ! i) sfreq_hz = Finite p
            \<and> - (2 ^ 63) \<le> p \<and> p \<le> 2 ^ 63 - 1
            \<and> - (2 ^ 63) \<le> p + of_int first_samp \<and> p + of_int first_samp \<le> 2 ^ 63 - 1
            \<longrightarrow> (\<exists>n. events ! i = (n + first_samp, 0, event_id)
                  \<and> \<bar>of_int n - p\<bar> \<le> 1 / 2
                  \<and> (\<bar>of_int n - p\<bar> = 1 / 2 \<longrightarrow> even n)
                  \<and> (\<forall>k. p = of_int k + 1 / 2 \<longrightarrow> n = (if even k then k else k + 1))))"
proof -
  define events where
    "events = map (\<lambda>t. (sint (astype_int64 (fmul t sfreq_hz) + word_of_int first_samp), 0 :: int, event_id))
                  timestamps_s"
  have f: "fits_int64 first_samp" "fits_int64 event_id"
    using assms(2-5) by (simp_all add: fits_int64_def)
  have e: "metadata_df_to_mne_events fmul metadata sfreq_hz first_samp timestamp_col event_id = Inr events"
    using events_eq [OF assms(1) f] by (simp add: events_def assms(6))
  have l: "length events = length timestamps_s" by (simp add: events_def)
  have "\<exists>n. events ! i = (n + first_samp, 0, event_id)
            \<and> \<bar>of_int n - p\<bar> \<le> 1 / 2
            \<and> (\<bar>of_int n - p\<bar> = 1 / 2 \<longrightarrow> even n)
            \<and> (\<forall>k. p = of_int k + 1 / 2 \<longrightarrow> n = (if even k then k else k + 1))"
    if i: "i < length timestamps_s"
      and p: "fmul (timestamps_s ! i) sfreq_hz = Finite p"
      and r: "- (2 ^ 63) \<le> p" "p \<le> 2 ^ 63 - 1"
        "- (2 ^ 63) \<le> p + of_int first_samp" "p + of_int first_samp \<le> 2 ^ 63 - 1"
    for i p
  proof -
    have "events ! i = (sint (astype_int64 (Finite p) + word_of_int first_samp), 0, event_id)"
      using i p by (simp add: events_def)
    then have "events ! i = (rint p + first_samp, 0, event_id)"
      by (simp only: sample_in_range [OF r])
    moreover have "\<bar>of_int (rint p) - p\<bar> \<le> 1 / 2" by (rule rint_nearest)
    moreover have "\<bar>of_int (rint p) - p\<bar> = 1 / 2 \<longrightarrow> even (rint p)"
      using rint_tie_even by blast
    moreover have "\<forall>k. p = of_int k + 1 / 2 \<longrightarrow> rint p = (if even k then k else k + 1)"
      by (simp add: rint_half)
    ultimately show ?thesis by blast
  qed
  then show ?thesis using e l by blast
qed

theorem event_samples_round_half_even_witness:
  "''timestamp'' \<in> set (md_columns [(''timestamp'', [Finite (1 / 8), NonFinite, Finite (3 / 8), Finite (7 / 16)])])
   \<and> (- (2 ^ 63) :: int) \<le> 10 \<and> (10 :: int) < 2 ^ 63 \<and> (- (2 ^ 63) :: int) \<le> 7 \<and> (7 :: int) < 2 ^ 63
   \<and> finite_values (md_column [(''timestamp'', [Finite (1 / 8), NonFinite, Finite (3 / 8), Finite (7 / 16)])]
        ''timestamp'') = [1 / 8, 3 / 8, 7 / 16]
   \<and> exact_mul (1 / 8) 4 = Finite (of_int 0 + 1 / 2)
   \<and> exact_mul (3 / 8) 4 = Finite (of_int 1 + 1 / 2)
   \<and> exact_mul (7 / 16) 4 = Finite (7 / 4)
   \<and> metadata_df_to_mne_events exact_mul
       [(''timestamp'', [Finite (1 / 8), NonFinite, Finite (3 / 8), Finite (7 / 16)])] 4 10 ''timestamp'' 7
     = Inr [(10, 0, 7), (12, 0, 7), (12, 0, 7)]"
proof -
  have c: "''timestamp'' \<in> set (md_columns [(''timestamp'', [Finite (1 / 8), NonFinite, Finite (3 / 8), Finite (7 / 16)])])"
    by (simp add: md_columns_def)
  have b: "(- (2 ^ 63) :: int) \<le> 10" "(10 :: int) < 2 ^ 63" "(- (2 ^ 63) :: int) \<le> 7" "(7 :: int) < 2 ^ 63"
    by simp_all
  have t: "[1 / 8, 3 / 8, 7 / 16] = finite_values
      (md_column [(''timestamp'', [Finite (1 / 8), NonFinite, Finite (3 / 8), Finite (7 / 16)])] ''timestamp'')"
    by (simp add: md_column_def)
  have p0: "exact_mul (1 / 8) 4 = Finite (of_int 0 + 1 / 2)"
    and p1: "exact_mul (3 / 8) 4 = Finite (of_int 1 + 1 / 2)"
    and p2: "exact_mul (7 / 16) 4 = Finite (7 / 4)"
    by (simp_all add: exact_mul_def)
  obtain events where e: "metadata_df_to_mne_events exact_mul
       [(''timestamp'', [Finite (1 / 8), NonFinite, Finite (3 / 8), Finite (7 / 16)])] 4 10 ''timestamp'' 7
     = Inr events"
    and l: "length events = length [1 / 8, 3 / 8, 7 / 16 :: real]"
    and s: "\<forall>i < length [1 / 8, 3 / 8, 7 / 16 :: real]. \<forall>p.
            exact_mul ([1 / 8, 3 / 8, 7 / 16] ! i) 4 = Finite p
            \<and> - (2 ^ 63) \<le> p \<and> p \<le> 2 ^ 63 - 1
            \<and> - (2 ^ 63) \<le> p + of_int 10 \<and> p + of_int 10 \<le> 2 ^ 63 - 1
            \<longrightarrow> (\<exists>n. events ! i = (n + 10, 0, 7)
                  \<and> \<bar>of_int n - p\<bar> \<le> 1 / 2
                  \<and> (\<bar>of_int n - p\<bar> = 1 / 2 \<longrightarrow> even n)
                  \<and> (\<forall>k. p = of_int k + 1 / 2 \<longrightarrow> n = (if even k then k else k + 1)))"
    using event_samples_round_half_even [OF c b t, of exact_mul 4] by blast
  have h0: "exact_mul ([1 / 8, 3 / 8, 7 / 16] ! 0) 4 = Finite (of_int 0 + 1 / 2)
            \<and> - (2 ^ 63) \<le> (of_int 0 + 1 / 2 :: real) \<and> (of_int 0 + 1 / 2 :: real) \<le> 2 ^ 63 - 1
            \<and> - (2 ^ 63) \<le> (of_int 0 + 1 / 2 :: real) + of_int 10
            \<and> (of_int 0 + 1 / 2 :: real) + of_int 10 \<le> 2 ^ 63 - 1"
    by (simp add: exact_mul_def)
  have h1: "exact_mul ([1 / 8, 3 / 8, 7 / 16] ! 1) 4 = Finite (of_int 1 + 1 / 2)
            \<and> - (2 ^ 63) \<le> (of_int 1 + 1 / 2 :: real) \<and> (of_int 1 + 1 / 2 :: real) \<le> 2 ^ 63 - 1
            \<and> - (2 ^ 63) \<le> (of_int 1 + 1 / 2 :: real) + of_int 10
            \<and> (of_int 1 + 1 / 2 :: real) + of_int 10 \<le> 2 ^ 63 - 1"
    by (simp add: exact_mul_def)
  have h2: "exact_mul ([1 / 8, 3 / 8, 7 / 16] ! 2) 4 = Finite (7 / 4)
            \<and> - (2 ^ 63) \<le> (7 / 4 :: real) \<and> (7 / 4 :: real) \<le> 2 ^ 63 - 1
            \<and> - (2 ^ 63) \<le> (7 / 4 :: real) + of_int 10
            \<and> (7 / 4 :: real) + of_int 10 \<le> 2 ^ 63 - 1"
    by (simp add: exact_mul_def)
  have i0: "0 < length [1 / 8, 3 / 8, 7 / 16 :: real]"
    and i1: "1 < length [1 / 8, 3 / 8, 7 / 16 :: real]"
    and i2: "2 < length [1 / 8, 3 / 8, 7 / 16 :: real]"
    by simp_all
  obtain n0 where n0: "events ! 0 = (n0 + 10, 0, 7)"
    and k0: "\<forall>k. (of_int 0 + 1 / 2 :: real) = of_int k + 1 / 2 \<longrightarrow> n0 = (if even k then k else k + 1)"
    using s [rule_format, OF i0 h0] by blast
  have "n0 = (if even (0 :: int) then 0 else 0 + 1)" using k0 [rule_format, of 0] by simp
  then have e0: "events ! 0 = (10, 0, 7)" using n0 by simp
  obtain n1 where n1: "events ! 1 = (n1 + 10, 0, 7)"
    and k1: "\<forall>k. (of_int 1 + 1 / 2 :: real) = of_int k + 1 / 2 \<longrightarrow> n1 = (if even k then k else k + 1)"
    using s [rule_format, OF i1 h1] by blast
  have "n1 = (if even (1 :: int) then 1 else 1 + 1)" using k1 [rule_format, of 1] by simp
  then have e1: "events ! 1 = (12, 0, 7)" using n1 by simp
  obtain n2 where n2: "events ! 2 = (n2 + 10, 0, 7)" and d2: "\<bar>of_int n2 - (7 / 4 :: real)\<bar> \<le> 1 / 2"
    using s [rule_format, OF i2 h2] by blast
  have "n2 = 2" using d2 by linarith
  then have e2: "events ! 2 = (12, 0, 7)" using n2 by simp
  have l3: "length events = 3" using l by simp
  obtain x r1 where x: "events = x # r1" using l3 by (cases events) simp_all
  obtain y r2 where y: "r1 = y # r2" using l3 x by (cases r1) simp_all
  obtain z r3 where z: "r2 = z # r3" using l3 x y by (cases r2) simp_all
  have "r3 = []" using l3 x y z by simp
  then have "events = [x, y, z]" using x y z by simp
  then have "events = [(10, 0, 7), (12, 0, 7), (12, 0, 7)]" using e0 e1 e2 by simp
  then show ?thesis using c b t p0 p1 p2 e by simp
qed

text \<open>
  Claim C4 as stated fails: the timestamp \<open>0.125\<close> at 100 Hz is the tie \<open>12.5\<close> (the double
  product is exact), which is rounded to 12 and not away from zero to 13, so with
  \<open>first_samp = 10\<close> the sample index is 22 and not \<open>12 + 1 + 10\<close>.
\<close>

theorem event_sample_tie_counterexample:
  "exact_mul (1 / 8) 100 = Finite (of_int 12 + 1 / 2)
   \<and> metadata_df_to_mne_events exact_mul [(''timestamp'', [Finite (1 / 8)])] 100 10 ''timestamp'' 7
       = Inr [(22, 0, 7)]
   \<and> (22 :: int) \<noteq> 12 + 1 + 10"
proof -
  have c: "''timestamp'' \<in> set (md_columns [(''timestamp'', [Finite (1 / 8)])])"
    by (simp add: md_columns_def)
  have f: "fits_int64 10" "fits_int64 7" by (simp_all add: fits_int64_def)
  have "\<lfloor>25 / 2 :: real\<rfloor> = 12" by linarith
  then have r: "rint (25 / 2) = 12" by (simp add: rint_def Let_def)
  have "sint (astype_int64 (Finite (25 / 2)) + word_of_int 10) = rint (25 / 2) + 10"
    by (rule sample_in_range) simp_all
  then have "sint (astype_int64 (Finite (25 / 2)) + word_of_int 10) = 22" using r by simp
  then show ?thesis
    by (simp add: events_eq [OF c f] md_column_def exact_mul_def)
qed

section \<open>Properties of the partner inference\<close>

subsection \<open>Decimal numerals\<close>

lemma of_char_digit_char: "d < 10 \<Longrightarrow> (of_char (digit_char d) :: nat) = 48 + d"
  by (simp add: digit_char_def)

lemma is_digit_digit_char: "d < 10 \<Longrightarrow> is_digit (digit_char d)"
  by (simp add: is_digit_def of_char_digit_char)

lemma is_digit_not_sign: "is_digit c \<Longrightarrow> c \<noteq> CHR ''-'' \<and> c \<noteq> CHR ''+''"
  by (auto simp: is_digit_def)

lemma int_of_digits_snoc:
  "int_of_digits (s @ [c]) = 10 * int_of_digits s + int (of_char c - 48)"
  by (simp add: int_of_digits_def)

lemma int_of_digits_str_nat: "int_of_digits (str_nat n) = int n"
proof (induction n rule: str_nat.induct)
  case (1 n)
  show ?case
  proof (cases "n < 10")
    case True
    then have "str_nat n = [digit_char n]" by (subst str_nat.simps) simp
    then show ?thesis using True by (simp add: int_of_digits_def of_char_digit_char)
  next
    case False
    then have s: "str_nat n = str_nat (n div 10) @ [digit_char (n mod 10)]"
      by (subst str_nat.simps) simp
    have "int_of_digits (str_nat n) = 10 * int (n div 10) + int (n mod 10)"
      unfolding s int_of_digits_snoc using 1 False by (simp add: of_char_digit_char)
    also have "\<dots> = int (10 * (n div 10) + n mod 10)"
      by (simp only: of_nat_add of_nat_mult of_nat_numeral)
    also have "\<dots> = int n" by simp
    finally show ?thesis .
  qed
qed

lemma str_nat_digits: "str_nat n \<noteq> [] \<and> list_all is_digit (str_nat n)"
proof (induction n rule: str_nat.induct)
  case (1 n)
  show ?case
  proof (cases "n < 10")
    case True
    then have "str_nat n = [digit_char n]" by (subst str_nat.simps) simp
    then show ?thesis using True by (simp add: is_digit_digit_char)
  next
    case False
    then have s: "str_nat n = str_nat (n div 10) @ [digit_char (n mod 10)]"
      by (subst str_nat.simps) simp
    show ?thesis unfolding s using 1 False by (simp add: is_digit_digit_char)
  qed
qed

lemma length_str_nat_small: "n < 10 \<Longrightarrow> length (str_nat n) = 1"
  by (subst str_nat.simps) simp

lemma length_str_nat_1000: "n < 1000 \<Longrightarrow> length (str_nat n) \<le> 3"
proof -
  assume n: "n < 1000"
  have a: "length (str_nat m) \<le> 2" if "m < 100" for m
  proof (cases "m < 10")
    case True
    then show ?thesis by (simp add: length_str_nat_small)
  next
    case False
    have "m div 10 < 10" using that by simp
    then have "length (str_nat (m div 10)) = 1" by (rule length_str_nat_small)
    then show ?thesis using False by (subst str_nat.simps) simp
  qed
  show ?thesis
  proof (cases "n < 10")
    case True
    then show ?thesis by (simp add: length_str_nat_small)
  next
    case False
    have "n div 10 < 100" using n by simp
    then have "length (str_nat (n div 10)) \<le> 2" by (rule a)
    then show ?thesis using False by (subst str_nat.simps) simp
  qed
qed

lemma int_of_digits_zeros: "int_of_digits (replicate k CHR ''0'' @ s) = int_of_digits s"
proof -
  have "foldl (\<lambda>a c. 10 * a + int (of_char c - 48)) 0 (replicate k CHR ''0'') = 0"
    by (induction k) simp_all
  then show ?thesis by (simp add: int_of_digits_def)
qed

lemma py_int_digits:
  "s \<noteq> [] \<Longrightarrow> list_all is_digit s \<Longrightarrow> py_int s = Inr (int_of_digits s)"
  by (cases s) (auto simp: py_int_def Let_def dest: is_digit_not_sign)

lemma py_int_minus:
  "s \<noteq> [] \<Longrightarrow> list_all is_digit s \<Longrightarrow> py_int (CHR ''-'' # s) = Inr (- int_of_digits s)"
  by (simp add: py_int_def Let_def)

lemma padded_digits:
  "replicate k CHR ''0'' @ str_nat n \<noteq> [] \<and> list_all is_digit (replicate k CHR ''0'' @ str_nat n)"
  using str_nat_digits [of n] by (auto simp: list_all_iff is_digit_def)

lemma digit_char_0: "digit_char 0 = CHR ''0''"
  by code_simp

lemma zfill_nat:
  "zfill width (str_nat n) = replicate (width - length (str_nat n)) CHR ''0'' @ str_nat n"
proof -
  obtain c cs where s: "str_nat n = c # cs" using str_nat_digits [of n] by (cases "str_nat n") auto
  then have "is_digit c" using str_nat_digits [of n] by simp
  then show ?thesis using s by (auto simp: zfill_def dest: is_digit_not_sign)
qed

lemma zfill_str_int:
  "zfill width (str_int i) =
     (if i < 0
      then CHR ''-'' # replicate (width - Suc (length (str_nat (nat (- i))))) CHR ''0''
             @ str_nat (nat (- i))
      else replicate (width - length (str_nat (nat i))) CHR ''0'' @ str_nat (nat i))"
  by (simp add: str_int_def zfill_nat) (simp add: zfill_def)

lemma py_int_zfill_str_int: "py_int (zfill width (str_int i)) = Inr i"
proof (cases "i < 0")
  case True
  define k where "k = width - Suc (length (str_nat (nat (- i))))"
  have z: "zfill width (str_int i) = CHR ''-'' # (replicate k CHR ''0'' @ str_nat (nat (- i)))"
    using True by (simp add: zfill_str_int k_def)
  have "py_int (CHR ''-'' # (replicate k CHR ''0'' @ str_nat (nat (- i))))
      = Inr (- int_of_digits (replicate k CHR ''0'' @ str_nat (nat (- i))))"
    using padded_digits [of k "nat (- i)"] by (intro py_int_minus) simp_all
  then show ?thesis using True
    by (simp add: z int_of_digits_zeros int_of_digits_str_nat)
next
  case False
  define k where "k = width - length (str_nat (nat i))"
  have z: "zfill width (str_int i) = replicate k CHR ''0'' @ str_nat (nat i)"
    using False by (simp add: zfill_str_int k_def)
  have "py_int (replicate k CHR ''0'' @ str_nat (nat i))
      = Inr (int_of_digits (replicate k CHR ''0'' @ str_nat (nat i)))"
    using padded_digits [of k "nat i"] by (intro py_int_digits) simp_all
  then show ?thesis using False
    by (simp add: z int_of_digits_zeros int_of_digits_str_nat)
qed

lemma str_nat_two: "10 \<le> n \<Longrightarrow> n < 100 \<Longrightarrow> str_nat n = [digit_char (n div 10), digit_char (n mod 10)]"
proof -
  assume n: "10 \<le> n" "n < 100"
  then have "n div 10 < 10" by simp
  then have "str_nat (n div 10) = [digit_char (n div 10)]" by (subst str_nat.simps) simp
  then show ?thesis using n by (subst str_nat.simps) simp
qed

lemma zfill_three:
  assumes "n < 1000"
  shows "zfill 3 (str_nat n) = [digit_char (n div 100), digit_char (n div 10 mod 10), digit_char (n mod 10)]"
proof -
  have z: "zfill 3 (str_nat n) = replicate (3 - length (str_nat n)) CHR ''0'' @ str_nat n"
    by (rule zfill_nat)
  consider "n < 10" | "10 \<le> n" "n < 100" | "100 \<le> n" using assms by linarith
  then show ?thesis
  proof cases
    case 1
    then have sn: "str_nat n = [digit_char n]" by (subst str_nat.simps) simp
    show ?thesis using 1 by (subst z) (simp add: sn digit_char_0 numeral_3_eq_3)
  next
    case 2
    have sn: "str_nat n = [digit_char (n div 10), digit_char (n mod 10)]"
      using 2 by (rule str_nat_two)
    have "n div 100 = 0" using 2 by simp
    then show ?thesis using 2 by (subst z) (simp add: sn digit_char_0 numeral_3_eq_3)
  next
    case 3
    have d: "10 \<le> n div 10" "n div 10 < 100" using 3 assms by simp_all
    have "str_nat n = str_nat (n div 10) @ [digit_char (n mod 10)]"
      using 3 by (subst str_nat.simps) simp
    then have sn: "str_nat n = [digit_char (n div 10 div 10), digit_char (n div 10 mod 10), digit_char (n mod 10)]"
      by (simp add: str_nat_two [OF d])
    have "n div 10 div 10 = n div 100" by (simp add: div_mult2_eq [symmetric])
    then show ?thesis by (subst z) (simp add: sn)
  qed
qed

lemma length_zfill_3:
  assumes "- 1 \<le> i" and "i \<le> 999"
  shows "length (zfill 3 (str_int i)) = 3"
proof (cases "i < 0")
  case True
  then have "i = - 1" using assms by simp
  then show ?thesis by (simp add: zfill_str_int length_str_nat_small)
next
  case False
  then have "nat i < 1000" using assms by simp
  then have "length (str_nat (nat i)) \<le> 3" by (rule length_str_nat_1000)
  then show ?thesis using False by (simp add: zfill_str_int)
qed

lemma three_digits_range:
  assumes "length s = 3" and "list_all is_digit s"
  shows "py_int s = Inr (int_of_digits s) \<and> 0 \<le> int_of_digits s \<and> int_of_digits s \<le> 999"
proof -
  obtain a b c where s: "s = [a, b, c]"
    using assms(1) by (cases s; cases "tl s"; cases "tl (tl s)") auto
  have d: "is_digit a" "is_digit b" "is_digit c" using assms(2) s by simp_all
  then have "(of_char a :: nat) - 48 \<le> 9" "(of_char b :: nat) - 48 \<le> 9" "(of_char c :: nat) - 48 \<le> 9"
    by (auto simp: is_digit_def)
  then have "0 \<le> int_of_digits s \<and> int_of_digits s \<le> 999"
    by (simp add: s int_of_digits_def)
  moreover have "py_int s = Inr (int_of_digits s)"
    using assms by (intro py_int_digits) auto
  ultimately show ?thesis by simp
qed

subsection \<open>The pattern search\<close>

lemma match_at_groups:
  "match_at s = Some (g1, g2) \<Longrightarrow> length g1 = 3 \<and> list_all is_digit g1"
  by (auto simp: match_at_def split: if_splits option.splits)

lemma re_search_groups:
  "re_search s = Some (g1, g2) \<Longrightarrow> length g1 = 3 \<and> list_all is_digit g1"
proof (induction s)
  case Nil
  then show ?case using match_at_groups by simp
next
  case (Cons c cs)
  then show ?case using match_at_groups [of "c # cs" g1 g2]
    by (auto split: option.splits)
qed

lemma run_here_needs_dash: "CHR ''-'' \<notin> set s \<Longrightarrow> run_here s = None"
proof -
  assume n: "CHR ''-'' \<notin> set s"
  have "\<not> prefix ''run-'' s"
  proof
    assume "prefix ''run-'' s"
    then obtain t where "s = ''run-'' @ t" by (auto simp: prefix_def)
    then show False using n by simp
  qed
  then show ?thesis by (simp add: run_here_def)
qed

lemma run_after_needs_dash: "CHR ''-'' \<notin> set s \<Longrightarrow> run_after s = None"
  by (induction s) (simp_all add: run_here_needs_dash)

lemma run_here_found:
  assumes "run \<noteq> []" and "list_all is_digit run" and "rest = [] \<or> \<not> is_digit (hd rest)"
  shows "run_here (''run-'' @ run @ rest) = Some run"
proof -
  have "takeWhile is_digit (run @ rest) = run"
    using assms(2,3) by (cases rest) (auto simp: list_all_iff)
  moreover have "case run @ rest of [] \<Rightarrow> False | c # _ \<Rightarrow> is_digit c"
    using assms(1,2) by (cases run) simp_all
  ultimately show ?thesis by (simp add: run_here_def)
qed

lemma run_after_found:
  assumes "run \<noteq> []" and "list_all is_digit run" and "rest = [] \<or> \<not> is_digit (hd rest)"
    and "CHR ''-'' \<notin> set rest"
  shows "run_after (''run-'' @ run @ rest) = Some run"
proof -
  have "CHR ''-'' \<notin> set run" using assms(2) is_digit_not_sign by (auto simp: list_all_iff)
  then have "run_after (run @ rest) = None" using assms(4) by (intro run_after_needs_dash) simp
  moreover have "run_here (CHR ''-'' # run @ rest) = None"
    and "run_here (CHR ''n'' # CHR ''-'' # run @ rest) = None"
    and "run_here (CHR ''u'' # CHR ''n'' # CHR ''-'' # run @ rest) = None"
    by (simp_all add: run_here_def)
  moreover have "run_here (CHR ''r'' # CHR ''u'' # CHR ''n'' # CHR ''-'' # run @ rest) = Some run"
    using run_here_found [OF assms(1,2,3)] by simp
  ultimately show ?thesis by simp
qed

lemma run_after_skip:
  "CHR 0x0A \<notin> set mid \<Longrightarrow> run_after s = Some run \<Longrightarrow> run_after (mid @ s) = Some run"
  by (induction mid) auto

lemma re_search_standard:
  assumes "length sid = 3" and "list_all is_digit sid"
    and "run \<noteq> []" and "list_all is_digit run"
    and "CHR 0x0A \<notin> set mid"
    and "CHR ''-'' \<notin> set rest" and "rest = [] \<or> \<not> is_digit (hd rest)"
  shows "re_search (''sub-'' @ sid @ mid @ ''run-'' @ run @ rest) = Some (sid, run)"
proof -
  have "run_after (mid @ ''run-'' @ run @ rest) = Some run"
    using assms(5) run_after_found [OF assms(3,4,7,6)] by (rule run_after_skip)
  then have "match_at (''sub-'' @ sid @ mid @ ''run-'' @ run @ rest) = Some (sid, run)"
    using assms(1,2) by (simp add: match_at_def)
  then show ?thesis by simp
qed

lemma infer_matched:
  assumes "re_search stem = Some (sid, run)"
  shows "\<exists>v w other_id.
      py_int sid = Inr v \<and> 0 \<le> v \<and> v \<le> 999
      \<and> w = (if even v then v - 1 else v + 1)
      \<and> infer_partner_id_and_run_from_ipu_path stem = Inr (other_id, run)
      \<and> py_int other_id = Inr w
      \<and> (1 \<le> v \<and> v \<le> 998 \<longrightarrow>
            other_id = [digit_char (nat w div 100), digit_char (nat w div 10 mod 10),
                        digit_char (nat w mod 10)])
      \<and> (v = 0 \<longrightarrow> other_id = ''-01'')
      \<and> (v = 999 \<longrightarrow> other_id = ''1000'')
      \<and> (v \<noteq> 999 \<longrightarrow> length other_id = length sid)"
proof -
  define v where "v = int_of_digits sid"
  define w where "w = (if v mod 2 = 0 then v - 1 else v + 1)"
  define other_id where "other_id = zfill 3 (str_int w)"
  have g: "length sid = 3" "list_all is_digit sid" using re_search_groups [OF assms] by simp_all
  have pv: "py_int sid = Inr v" and r: "0 \<le> v" "v \<le> 999"
    using three_digits_range [OF g] by (simp_all add: v_def)
  have we: "w = (if even v then v - 1 else v + 1)"
    by (simp add: w_def even_iff_mod_2_eq_zero)
  have i: "infer_partner_id_and_run_from_ipu_path stem = Inr (other_id, run)"
    using assms pv by (simp add: infer_partner_id_and_run_from_ipu_path_def other_id_def w_def)
  have po: "py_int other_id = Inr w"
    by (simp add: other_id_def py_int_zfill_str_int)
  have mid: "other_id = [digit_char (nat w div 100), digit_char (nat w div 10 mod 10),
                        digit_char (nat w mod 10)]" if "1 \<le> v \<and> v \<le> 998"
  proof -
    have "0 \<le> w" and "w \<le> 999" using that by (auto simp: we)
    then have "nat w < 1000" and "str_int w = str_nat (nat w)" by (simp_all add: str_int_def)
    then show ?thesis by (simp add: other_id_def zfill_three)
  qed
  have lo: "other_id = ''-01''" if "v = 0"
  proof -
    have "w = - 1" using that by (simp add: w_def)
    moreover have "zfill 3 (str_int (- 1)) = ''-01''" by code_simp
    ultimately show ?thesis by (simp add: other_id_def)
  qed
  have hi: "other_id = ''1000''" if "v = 999"
  proof -
    have "w = 1000" using that by (simp add: w_def)
    moreover have "zfill 3 (str_int 1000) = ''1000''" by code_simp
    ultimately show ?thesis by (simp add: other_id_def)
  qed
  have len: "length other_id = length sid" if "v \<noteq> 999"
  proof -
    have "- 1 \<le> w \<and> w \<le> 999" using r that by (auto simp: w_def)
    then show ?thesis using g(1) by (simp add: other_id_def length_zfill_3)
  qed
  show ?thesis using pv r we i po mid lo hi len by blast
qed

lemma re_search_has_sub: "re_search s = Some m \<Longrightarrow> sublist ''sub-'' s"
proof (induction s)
  case Nil
  then show ?case by (simp add: match_at_def)
next
  case (Cons c cs)
  show ?case
  proof (cases "match_at (c # cs)")
    case None
    then have "sublist ''sub-'' cs" using Cons by simp
    then show ?thesis by (simp only: sublist_Cons_right simp_thms)
  next
    case (Some a)
    then have "prefix ''sub-'' (c # cs)" by (simp add: match_at_def split: if_splits)
    then show ?thesis by (simp only: sublist_Cons_right simp_thms)
  qed
qed

text \<open>
  Claim C9, amended.  A stem without a match of the pattern (for instance one that does
  not contain \<open>sub-\<close>) makes the inference fail with a \<open>RuntimeError\<close>.  When the pattern
  matches with subject id \<open>sid\<close> and run \<open>run\<close>, \<open>sid\<close> is three decimal digits with value
  \<open>v\<close>, and the result is the pair of the partner id and \<open>run\<close> unchanged.  With
  \<open>w = v - 1\<close> for even \<open>v\<close> and \<open>w = v + 1\<close> for odd \<open>v\<close>, the partner id is the decimal
  numeral of \<open>w\<close> padded with the digit zero to three characters: the three digits
  hundreds, tens, units of \<open>w\<close> for \<open>1 \<le> v \<le> 998\<close>, and \<open>-01\<close> for \<open>v = 0\<close>; for
  \<open>v = 999\<close> it is the four characters \<open>1000\<close>.  A stem \<open>sub-<sid><mid>run-<run><rest>\<close>
  with three digits \<open>sid\<close>, digits \<open>run\<close>, no newline in \<open>mid\<close>, no \<open>-\<close> in \<open>rest\<close> and no
  digit at the head of \<open>rest\<close> matches with exactly these \<open>sid\<close> and \<open>run\<close>.
\<close>

theorem partner_inference:
  "(re_search stem = None \<longrightarrow>
      (\<exists>msg. infer_partner_id_and_run_from_ipu_path stem = Inl (RuntimeError msg)))
   \<and> (\<not> sublist ''sub-'' stem \<longrightarrow> re_search stem = None)
   \<and> (\<forall>sid run. re_search stem = Some (sid, run) \<longrightarrow>
        length sid = 3 \<and> list_all is_digit sid
        \<and> (\<exists>v w other_id.
              py_int sid = Inr v \<and> 0 \<le> v \<and> v \<le> 999
              \<and> w = (if even v then v - 1 else v + 1)
              \<and> infer_partner_id_and_run_from_ipu_path stem = Inr (other_id, run)
              \<and> py_int other_id = Inr w
              \<and> (1 \<le> v \<and> v \<le> 998 \<longrightarrow>
                    other_id = [digit_char (nat w div 100), digit_char (nat w div 10 mod 10),
                                digit_char (nat w mod 10)])
              \<and> (v = 0 \<longrightarrow> other_id = ''-01'')
              \<and> (v = 999 \<longrightarrow> other_id = ''1000'')
              \<and> (v \<noteq> 999 \<longrightarrow> length other_id = length sid)))
   \<and> (length sid0 = 3 \<and> list_all is_digit sid0 \<and> run0 \<noteq> [] \<and> list_all is_digit run0
        \<and> CHR 0x0A \<notin> set mid \<and> CHR ''-'' \<notin> set rest \<and> (rest = [] \<or> \<not> is_digit (hd rest))
      \<longrightarrow> re_search (''sub-'' @ sid0 @ mid @ ''run-'' @ run0 @ rest) = Some (sid0, run0))"
proof (intro conjI impI allI)
  assume "re_search stem = None"
  then show "\<exists>msg. infer_partner_id_and_run_from_ipu_path stem = Inl (RuntimeError msg)"
    by (simp add: infer_partner_id_and_run_from_ipu_path_def)
next
  assume n: "\<not> sublist ''sub-'' stem"
  show "re_search stem = None"
  proof (cases "re_search stem")
    case None
    then show ?thesis .
  next
    case (Some m)
    then show ?thesis using n re_search_has_sub by blast
  qed
next
  fix sid run assume "re_search stem = Some (sid, run)"
  then show "length sid = 3" by (simp add: re_search_groups)
next
  fix sid run assume "re_search stem = Some (sid, run)"
  then show "list_all is_digit sid" by (simp add: re_search_groups)
next
  fix sid run assume "re_search stem = Some (sid, run)"
  then show "\<exists>v w other_id.
              py_int sid = Inr v \<and> 0 \<le> v \<and> v \<le> 999
              \<and> w = (if even v then v - 1 else v + 1)
              \<and> infer_partner_id_and_run_from_ipu_path stem = Inr (other_id, run)
              \<and> py_int other_id = Inr w
              \<and> (1 \<le> v \<and> v \<le> 998 \<longrightarrow>
                    other_id = [digit_char (nat w div 100), digit_char (nat w div 10 mod 10),
                                digit_char (nat w mod 10)])
              \<and> (v = 0 \<longrightarrow> other_id = ''-01'')
              \<and> (v = 999 \<longrightarrow> other_id = ''1000'')
              \<and> (v \<noteq> 999 \<longrightarrow> length other_id = length sid)"
    by (rule infer_matched)
next
  assume "length sid0 = 3 \<and> list_all is_digit sid0 \<and> run0 \<noteq> [] \<and> list_all is_digit run0
        \<and> CHR 0x0A \<notin> set mid \<and> CHR ''-'' \<notin> set rest \<and> (rest = [] \<or> \<not> is_digit (hd rest))"
  then show "re_search (''sub-'' @ sid0 @ mid @ ''run-'' @ run0 @ rest) = Some (sid0, run0)"
    by (intro re_search_standard) simp_all
qed

theorem partner_inference_witness:
  "re_search ''sub-001_run-3_ipu'' = Some (''001'', ''3'')
   \<and> py_int ''001'' = Inr 1
   \<and> infer_partner_id_and_run_from_ipu_path ''sub-001_run-3_ipu'' = Inr (''002'', ''3'')
   \<and> ''002'' = [digit_char (2 div 100), digit_char (2 div 10 mod 10), digit_char (2 mod 10)]
   \<and> py_int ''002'' = Inr 2 \<and> length ''002'' = length ''001''
   \<and> \<not> sublist ''sub-'' ''bad-name''
   \<and> (\<exists>msg. infer_partner_id_and_run_from_ipu_path ''bad-name'' = Inl (RuntimeError msg))"
proof -
  have h: "length ''001'' = 3 \<and> list_all is_digit ''001'' \<and> ''3'' \<noteq> [] \<and> list_all is_digit ''3''
        \<and> CHR 0x0A \<notin> set ''_'' \<and> CHR ''-'' \<notin> set ''_ipu'' \<and> (''_ipu'' = [] \<or> \<not> is_digit (hd ''_ipu''))"
    by (simp add: is_digit_def)
  have m: "re_search ''sub-001_run-3_ipu'' = Some (''001'', ''3'')"
    using partner_inference [of "''sub-001_run-3_ipu''" "''001''" "''3''" "''_''" "''_ipu''",
        THEN conjunct2, THEN conjunct2, THEN conjunct2, rule_format, OF h]
    by simp
  have pv: "py_int ''001'' = Inr 1" by code_simp
  obtain v w other_id where v: "py_int ''001'' = Inr v"
    and w: "w = (if even v then v - 1 else v + 1)"
    and i: "infer_partner_id_and_run_from_ipu_path ''sub-001_run-3_ipu'' = Inr (other_id, ''3'')"
    and p: "py_int other_id = Inr w"
    and d: "1 \<le> v \<and> v \<le> 998 \<longrightarrow>
              other_id = [digit_char (nat w div 100), digit_char (nat w div 10 mod 10),
                          digit_char (nat w mod 10)]"
    and l: "v \<noteq> 999 \<longrightarrow> length other_id = length ''001''"
    using partner_inference [of "''sub-001_run-3_ipu''" "''001''" "''3''" "''_''" "''_ipu''",
        THEN conjunct2, THEN conjunct2, THEN conjunct1, rule_format, OF m]
    by blast
  have v1: "v = 1" using v pv by simp
  then have w2: "w = 2" using w by simp
  have e: "infer_partner_id_and_run_from_ipu_path ''sub-001_run-3_ipu'' = Inr (''002'', ''3'')"
    by code_simp
  then have o: "other_id = ''002''" using i by simp
  have b: "\<not> sublist ''sub-'' ''bad-name''" by (simp add: sublist_code)
  then have "re_search ''bad-name'' = None"
    using partner_inference [of "''bad-name''" "''001''" "''3''" "''_''" "''_ipu''",
        THEN conjunct2, THEN conjunct1]
    by blast
  then have f: "\<exists>msg. infer_partner_id_and_run_from_ipu_path ''bad-name'' = Inl (RuntimeError msg)"
    using partner_inference [of "''bad-name''" "''001''" "''3''" "''_''" "''_ipu''", THEN conjunct1]
    by blast
  have "''002'' = [digit_char (2 div 100), digit_char (2 div 10 mod 10), digit_char (2 mod 10)]"
    using d v1 w2 unfolding o by simp
  moreover have "py_int ''002'' = Inr 2" using p w2 unfolding o by simp
  moreover have "length ''002'' = length ''001''" using l v1 unfolding o by simp
  ultimately show ?thesis using m pv e b f by blast
qed

text \<open>
  Claim C9 as stated fails on the width: the stem \<open>sub-999_run-1_ipu\<close> matches with the
  three-character id \<open>999\<close>, and the partner id returned is the four-character \<open>1000\<close>.
\<close>

theorem partner_width_counterexample:
  "re_search ''sub-999_run-1_ipu'' = Some (''999'', ''1'')
   \<and> infer_partner_id_and_run_from_ipu_path ''sub-999_run-1_ipu'' = Inr (''1000'', ''1'')
   \<and> length ''1000'' \<noteq> length ''999''"
  by code_simp

end
